theory Spec2Isabelle
  imports Main "HOL-Library.Word" "HOL-Library.Monad_Syntax"
begin

unbundle bit_operations_syntax

section \<open>Machine types\<close>

text \<open>
  The configuration modelled is the one the sources select when neither
  \<^verbatim>\<open>__x86_64__\<close> nor \<^verbatim>\<open>__aarch64__\<close> is defined and \<^verbatim>\<open>Z_TESTN\<close>, \<^verbatim>\<open>Z_TESTW\<close>,
  \<^verbatim>\<open>DYNAMIC_CRC_TABLE\<close> and \<^verbatim>\<open>ZLIB_DEBUG\<close> are not set: \<open>N = 5\<close>, \<open>W = 4\<close>,
  \<^verbatim>\<open>z_word_t\<close>, \<^verbatim>\<open>z_crc_t\<close>, \<^verbatim>\<open>unsigned\<close> and \<^verbatim>\<open>unsigned long\<close> are 32 bits wide,
  \<^verbatim>\<open>ush\<close> is 16 bits, \<^verbatim>\<open>uch\<close> is 8 bits, \<^verbatim>\<open>z_off64_t\<close> is a signed 64-bit integer
  and \<^verbatim>\<open>z_off_t\<close> a signed 32-bit one.
\<close>

type_synonym u8 = "8 word"
type_synonym u16 = "16 word"
type_synonym u32 = "32 word"
type_synonym u64 = "64 word"

text \<open>
  Memory is a flat byte store indexed by address; a pointer is an address and
  \<^verbatim>\<open>Z_NULL\<close> is address 0.
\<close>

type_synonym memory = "nat \<Rightarrow> u8"

definition Z_NULL :: nat where
  "Z_NULL = 0"

definition bytes_at :: "memory \<Rightarrow> nat \<Rightarrow> nat \<Rightarrow> u8 list" where
  "bytes_at mem buf len = map mem [buf..<buf + len]"

section \<open>Checksum engine (crc32.cpp)\<close>

definition N :: nat where
  "N = 5"

definition W :: nat where
  "W = 4"

definition POLY :: u32 where
  "POLY = 0xedb88320"

text \<open>
  The step \<^verbatim>\<open>b = b & 1 ? (b >> 1) ^ POLY : b >> 1\<close> of \<^verbatim>\<open>multmodp\<close>: multiplication
  of the reflected polynomial \<open>b\<close> by \<open>x\<close> modulo \<open>p(x)\<close>.
\<close>

definition mulx :: "u32 \<Rightarrow> u32" where
  "mulx b = (if b AND 1 \<noteq> 0 then drop_bit 1 b XOR POLY else drop_bit 1 b)"

text \<open>
  \<^verbatim>\<open>multmodp\<close>: the \<^verbatim>\<open>for (;;)\<close> loop on the state \<open>(m, p, b)\<close>. The loop has no
  exit other than the \<^verbatim>\<open>break\<close>, so it is a partial function: \<open>None\<close> is
  "never returns".
\<close>

partial_function (option) multmodp_loop :: "u32 \<Rightarrow> u32 \<Rightarrow> u32 \<Rightarrow> u32 \<Rightarrow> u32 option" where
  "multmodp_loop a b m p =
     (if a AND m \<noteq> 0
      then (let p' = p XOR b
            in if a AND (m - 1) = 0 then Some p'
               else multmodp_loop a (mulx b) (drop_bit 1 m) p')
      else multmodp_loop a (mulx b) (drop_bit 1 m) p)"

definition multmodp :: "u32 \<Rightarrow> u32 \<Rightarrow> u32 option" where
  "multmodp a b = multmodp_loop a b (push_bit 31 1) 0"

text \<open>
  Modelled from the spec: \<^verbatim>\<open>crc32.hpp\<close>, which holds the constant tables
  \<^verbatim>\<open>crc_table\<close>, \<^verbatim>\<open>crc_big_table\<close>, \<^verbatim>\<open>crc_braid_table\<close>, \<^verbatim>\<open>crc_braid_big_table\<close> and
  \<^verbatim>\<open>x2n_table\<close>, is missing from the sources. \<^verbatim>\<open>x2n_table[k]\<close> is the table of
  \<open>x^(2^k) mod p(x)\<close> for \<open>k < 32\<close>.
\<close>

definition x2n_table :: "u32 list" where
  "x2n_table =
    [0x40000000, 0x20000000, 0x08000000, 0x00800000, 0x00008000,
     0xedb88320, 0xb1e6b092, 0xa06a2517, 0xed627dae, 0x88d14467,
     0xd7bbfe6a, 0xec447f11, 0x8e7ea170, 0x6427800e, 0x4d47bae0,
     0x09fe548f, 0x83852d0f, 0x30362f1a, 0x7b5a9cc3, 0x31fec169,
     0x9fec022a, 0x6c8dedc4, 0x15d6874d, 0x5fde7a4e, 0xbad90e37,
     0x2e4e5eef, 0x4eaba214, 0xa8a472c0, 0x429a969e, 0x148d302a,
     0xc40ba6d0, 0xc4e22c3c]"

text \<open>
  Modelled from the spec: the byte-indexed table \<^verbatim>\<open>crc_table\<close> of \<^verbatim>\<open>crc32.hpp\<close>
  (missing from the sources). Entry \<open>i\<close> is the CRC register after the byte \<open>i\<close>
  has been shifted through: eight multiplications by \<open>x\<close>.
\<close>

definition crc_table :: "u32 \<Rightarrow> u32" where
  "crc_table i = (mulx ^^ 8) i"

text \<open>
  Modelled from the spec: the braid tables of \<^verbatim>\<open>crc32.hpp\<close> (missing from the
  sources), one table per byte lane \<open>k < W\<close>. Entry \<open>i\<close> of lane \<open>k\<close> is the
  contribution of byte \<open>i\<close> at position \<open>k\<close> of a word to the CRC register \<open>N\<close>
  words later.
\<close>

definition crc_braid_table :: "nat \<Rightarrow> u32 \<Rightarrow> u32" where
  "crc_braid_table k i = (mulx ^^ (8 * (N * W - k))) i"

text \<open>\<^verbatim>\<open>byte_swap\<close>, the \<open>W = 4\<close> variant.\<close>

definition byte_swap :: "u32 \<Rightarrow> u32" where
  "byte_swap word =
     drop_bit 24 (word AND 0xff000000) OR
     drop_bit 8 (word AND 0xff0000) OR
     push_bit 8 (word AND 0xff00) OR
     push_bit 24 (word AND 0xff)"

text \<open>
  Modelled from the spec: the big-endian tables of \<^verbatim>\<open>crc32.hpp\<close> (missing from
  the sources) hold the byte-swapped entries of the little-endian ones, with the
  lanes in reverse order.
\<close>

definition crc_big_table :: "u32 \<Rightarrow> u32" where
  "crc_big_table i = byte_swap (crc_table i)"

definition crc_braid_big_table :: "nat \<Rightarrow> u32 \<Rightarrow> u32" where
  "crc_braid_big_table k i = byte_swap (crc_braid_table (W - 1 - k) i)"

text \<open>
  \<^verbatim>\<open>x2nmodp\<close>: \<open>n\<close> is a signed 64-bit integer, so \<^verbatim>\<open>n >>= 1\<close> is the arithmetic
  shift; \<open>k\<close> is \<^verbatim>\<open>unsigned\<close> and wraps.
\<close>

partial_function (option) x2nmodp_loop :: "u64 \<Rightarrow> u32 \<Rightarrow> u32 \<Rightarrow> u32 option" where
  "x2nmodp_loop n k p =
     (if n \<noteq> 0
      then (if n AND 1 \<noteq> 0
            then (case multmodp (x2n_table ! unat (k AND 31)) p of
                    None \<Rightarrow> None
                  | Some p' \<Rightarrow> x2nmodp_loop (signed_drop_bit 1 n) (k + 1) p')
            else x2nmodp_loop (signed_drop_bit 1 n) (k + 1) p)
      else Some p)"

definition x2nmodp :: "u64 \<Rightarrow> u32 \<Rightarrow> u32 option" where
  "x2nmodp n k = x2nmodp_loop n k (push_bit 31 1)"

text \<open>\<^verbatim>\<open>crc_word\<close> and \<^verbatim>\<open>crc_word_big\<close>: \<open>W\<close> table steps on a word.\<close>

definition crc_word :: "u32 \<Rightarrow> u32" where
  "crc_word data = ((\<lambda>d. drop_bit 8 d XOR crc_table (d AND 0xff)) ^^ W) data"

definition crc_word_big :: "u32 \<Rightarrow> u32" where
  "crc_word_big data =
     ((\<lambda>d. push_bit 8 d XOR crc_big_table (drop_bit (push_bit 3 (W - 1)) d AND 0xff)) ^^ W) data"

text \<open>The byte step \<^verbatim>\<open>crc = (crc >> 8) ^ crc_table[(crc ^ *buf++) & 0xff]\<close>.\<close>

definition crc_byte :: "u32 \<Rightarrow> u8 \<Rightarrow> u32" where
  "crc_byte crc b = drop_bit 8 crc XOR crc_table ((crc XOR ucast b) AND 0xff)"

text \<open>
  Loading the \<^verbatim>\<open>z_word_t\<close> at an address: the host's byte order decides which
  byte is the least significant one.
\<close>

definition load_word :: "bool \<Rightarrow> memory \<Rightarrow> nat \<Rightarrow> u32" where
  "load_word little mem a =
     (if little
      then ucast (mem a) OR push_bit 8 (ucast (mem (a + 1))) OR
           push_bit 16 (ucast (mem (a + 2))) OR push_bit 24 (ucast (mem (a + 3)))
      else ucast (mem (a + 3)) OR push_bit 8 (ucast (mem (a + 2))) OR
           push_bit 16 (ucast (mem (a + 1))) OR push_bit 24 (ucast (mem a)))"

text \<open>
  \<^verbatim>\<open>while (len && ((z_size_t)buf & (W - 1)) != 0)\<close>: the CRC up to a word
  boundary. The state is \<open>(crc, buf, len)\<close>.
\<close>

function align_loop :: "memory \<Rightarrow> u32 \<Rightarrow> nat \<Rightarrow> nat \<Rightarrow> u32 \<times> nat \<times> nat" where
  "align_loop mem crc buf len =
     (if len \<noteq> 0 \<and> buf mod W \<noteq> 0
      then align_loop mem (crc_byte crc (mem buf)) (buf + 1) (len - 1)
      else (crc, buf, len))"
  by pat_completeness auto
termination
  by (relation "measure (\<lambda>(mem, crc, buf, len). len)") auto

declare align_loop.simps [simp del]

text \<open>
  The word update of one braid: \<^verbatim>\<open>crc_braid_table[0][word & 0xff]\<close> and then the
  \<^verbatim>\<open>for (k = 1; k < W; k++)\<close> loop.
\<close>

definition braid_word :: "u32 \<Rightarrow> u32" where
  "braid_word word =
     fold (\<lambda>k c. c XOR crc_braid_table k (drop_bit (push_bit 3 k) word AND 0xff))
       [1..<W] (crc_braid_table 0 (word AND 0xff))"

definition braid_word_big :: "u32 \<Rightarrow> u32" where
  "braid_word_big word =
     fold (\<lambda>k c. c XOR crc_braid_big_table k (drop_bit (push_bit 3 k) word AND 0xff))
       [1..<W] (crc_braid_big_table 0 (word AND 0xff))"

text \<open>
  \<^verbatim>\<open>z_size_t\<close> is unsigned: \<^verbatim>\<open>--blks\<close> on 0 wraps around.
\<close>

definition SIZE_MAX :: nat where
  "SIZE_MAX = 2 ^ 64 - 1"

definition size_dec :: "nat \<Rightarrow> nat" where
  "size_dec n = (if n = 0 then SIZE_MAX else n - 1)"

text \<open>
  \<^verbatim>\<open>while (--blks)\<close>: the argument \<open>b\<close> is the value of \<open>blks\<close> after the
  decrement. The \<open>N\<close> braids \<open>crc0 .. crc(N-1)\<close> are the list \<open>lanes\<close>; the body
  loads \<open>words[k]\<close> for each braid and advances \<open>words\<close> by \<open>N\<close> words. \<open>upd\<close> is
  \<open>braid_word\<close> on a little-endian host and \<open>braid_word_big\<close> on a big-endian one.
\<close>

fun braid_loop :: "(u32 \<Rightarrow> u32) \<Rightarrow> bool \<Rightarrow> memory \<Rightarrow> nat \<Rightarrow> u32 list \<Rightarrow> nat \<Rightarrow> u32 list \<times> nat" where
  "braid_loop upd little mem 0 lanes words = (lanes, words)"
| "braid_loop upd little mem (Suc b) lanes words =
     braid_loop upd little mem b
       (map (\<lambda>k. upd (lanes ! k XOR load_word little mem (words + k * W))) [0..<N])
       (words + N * W)"

text \<open>
  The last block: \<^verbatim>\<open>crc = crc_word(crc0 ^ words[0])\<close>, then
  \<^verbatim>\<open>crc = crc_word(crck ^ words[k] ^ crc)\<close> for the other braids.
\<close>

definition braid_last :: "(u32 \<Rightarrow> u32) \<Rightarrow> bool \<Rightarrow> memory \<Rightarrow> u32 list \<Rightarrow> nat \<Rightarrow> u32" where
  "braid_last cw little mem lanes words =
     fold (\<lambda>k c. cw (lanes ! k XOR load_word little mem (words + k * W) XOR c))
       [1..<N] (cw (lanes ! 0 XOR load_word little mem words))"

text \<open>The body of \<^verbatim>\<open>if (len >= N * W + W - 1)\<close>; the result is \<open>(crc, buf, len)\<close>.\<close>

definition crc32_braid :: "bool \<Rightarrow> memory \<Rightarrow> u32 \<Rightarrow> nat \<Rightarrow> nat \<Rightarrow> u32 \<times> nat \<times> nat" where
  "crc32_braid little mem crc buf len =
     (let (crc, buf, len) = align_loop mem crc buf len;
          blks = len div (N * W);
          len = len - blks * N * W;
          words = buf
      in if little
         then (let (lanes, words) =
                     braid_loop braid_word little mem (size_dec blks)
                       (crc # replicate (N - 1) 0) words;
                   crc = braid_last crc_word little mem lanes words;
                   words = words + N * W
               in (crc, words, len))
         else (let (lanes, words) =
                     braid_loop braid_word_big little mem (size_dec blks)
                       (byte_swap crc # replicate (N - 1) 0) words;
                   comb = braid_last crc_word_big little mem lanes words;
                   words = words + N * W
               in (byte_swap comb, words, len)))"

text \<open>\<^verbatim>\<open>while (len >= 8)\<close> with its eight unrolled byte steps.\<close>

function tail8_loop :: "memory \<Rightarrow> u32 \<Rightarrow> nat \<Rightarrow> nat \<Rightarrow> u32 \<times> nat \<times> nat" where
  "tail8_loop mem crc buf len =
     (if len \<ge> 8
      then (let crc = crc_byte crc (mem buf);
                crc = crc_byte crc (mem (buf + 1));
                crc = crc_byte crc (mem (buf + 2));
                crc = crc_byte crc (mem (buf + 3));
                crc = crc_byte crc (mem (buf + 4));
                crc = crc_byte crc (mem (buf + 5));
                crc = crc_byte crc (mem (buf + 6));
                crc = crc_byte crc (mem (buf + 7))
            in tail8_loop mem crc (buf + 8) (len - 8))
      else (crc, buf, len))"
  by pat_completeness auto
termination
  by (relation "measure (\<lambda>(mem, crc, buf, len). len)") auto

declare tail8_loop.simps [simp del]

text \<open>\<^verbatim>\<open>while (len)\<close>: the remaining bytes one at a time.\<close>

fun tail_loop :: "memory \<Rightarrow> u32 \<Rightarrow> nat \<Rightarrow> nat \<Rightarrow> u32" where
  "tail_loop mem crc buf 0 = crc"
| "tail_loop mem crc buf (Suc len) = tail_loop mem (crc_byte crc (mem buf)) (buf + 1) len"

text \<open>
  \<^verbatim>\<open>crc32_z\<close>. The first argument is the host's byte order, which the code
  detects at run time.
\<close>

definition crc32_z :: "bool \<Rightarrow> memory \<Rightarrow> u32 \<Rightarrow> nat \<Rightarrow> nat \<Rightarrow> u32" where
  "crc32_z little mem crc buf len =
     (if buf = Z_NULL then 0
      else (let crc = (NOT crc) AND 0xffffffff;
                (crc, buf, len) =
                   (if len \<ge> N * W + W - 1 then crc32_braid little mem crc buf len
                    else (crc, buf, len));
                (crc, buf, len) = tail8_loop mem crc buf len;
                crc = tail_loop mem crc buf len
            in crc XOR 0xffffffff))"

text \<open>\<^verbatim>\<open>crc32\<close>: the length is a \<^verbatim>\<open>uInt\<close>.\<close>

definition crc32 :: "bool \<Rightarrow> memory \<Rightarrow> u32 \<Rightarrow> nat \<Rightarrow> u32 \<Rightarrow> u32" where
  "crc32 little mem crc buf len = crc32_z little mem crc buf (unat len)"

definition crc32_combine64 :: "u32 \<Rightarrow> u32 \<Rightarrow> u64 \<Rightarrow> u32 option" where
  "crc32_combine64 crc1 crc2 len2 =
     (case x2nmodp len2 3 of
        None \<Rightarrow> None
      | Some x \<Rightarrow> (case multmodp x crc1 of
                     None \<Rightarrow> None
                   | Some m \<Rightarrow> Some (m XOR (crc2 AND 0xffffffff))))"

definition crc32_combine :: "u32 \<Rightarrow> u32 \<Rightarrow> u32 \<Rightarrow> u32 option" where
  "crc32_combine crc1 crc2 len2 = crc32_combine64 crc1 crc2 (scast len2)"

definition crc32_combine_gen64 :: "u64 \<Rightarrow> u32 option" where
  "crc32_combine_gen64 len2 = x2nmodp len2 3"

definition crc32_combine_gen :: "u32 \<Rightarrow> u32 option" where
  "crc32_combine_gen len2 = crc32_combine_gen64 (scast len2)"

definition crc32_combine_op :: "u32 \<Rightarrow> u32 \<Rightarrow> u32 \<Rightarrow> u32 option" where
  "crc32_combine_op crc1 crc2 op =
     (case multmodp op crc1 of
        None \<Rightarrow> None
      | Some m \<Rightarrow> Some (m XOR (crc2 AND 0xffffffff)))"

section \<open>Checksum engine: reference definitions\<close>

text \<open>
  The reference semantics the code is compared with. \<open>mulp a b\<close> is the product of the
  reflected polynomials \<open>a\<close> and \<open>b\<close> modulo \<open>p(x)\<close>: bit \<open>31 - i\<close> of \<open>a\<close> is the
  coefficient of \<open>x^i\<close>, and \<open>X1\<close> is the polynomial 1.
\<close>

fun mulp_aux :: "u32 \<Rightarrow> u32 \<Rightarrow> nat \<Rightarrow> u32" where
  "mulp_aux a b 0 = (if bit a 0 then b else 0)"
| "mulp_aux a b (Suc k) = (if bit a (Suc k) then b else 0) XOR mulp_aux a (mulx b) k"

definition mulp :: "u32 \<Rightarrow> u32 \<Rightarrow> u32" where
  "mulp a b = mulp_aux a b 31"

definition X1 :: u32 where
  "X1 = push_bit 31 1"

text \<open>
  The plain byte-at-a-time table loop over a byte sequence, and the same loop with the
  pre- and post-conditioning of \<^verbatim>\<open>crc32_z\<close> around it.
\<close>

definition crc_bytes :: "u32 \<Rightarrow> u8 list \<Rightarrow> u32" where
  "crc_bytes crc bs = fold (\<lambda>b c. crc_byte c b) bs crc"

definition crc32_bytewise :: "u32 \<Rightarrow> u8 list \<Rightarrow> u32" where
  "crc32_bytewise crc bs = crc_bytes ((NOT crc) AND 0xffffffff) bs XOR 0xffffffff"

text \<open>
  Auxiliary notions for the braided path: the CRC register run over whole words, the
  words of a buffer, the register value a list of braid accumulators stands for, and the
  bit permutation of \<open>byte_swap\<close>.
\<close>

definition crc_words :: "u32 \<Rightarrow> u32 list \<Rightarrow> u32" where
  "crc_words crc ws = fold (\<lambda>w c. crc_word (c XOR w)) ws crc"

definition words_at :: "bool \<Rightarrow> memory \<Rightarrow> nat \<Rightarrow> nat \<Rightarrow> u32 list" where
  "words_at little mem a n = map (\<lambda>k. load_word little mem (a + k * W)) [0..<n]"

fun lanes_val :: "u32 list \<Rightarrow> u32" where
  "lanes_val [] = 0"
| "lanes_val (c # cs) = (mulx ^^ (32 * Suc (length cs))) c XOR lanes_val cs"

definition swap_ix :: "nat \<Rightarrow> nat" where
  "swap_ix n = 24 - 8 * (n div 8) + n mod 8"

section \<open>Entropy coder (trees.cpp, deflate.hpp)\<close>

subsection \<open>Constants\<close>

definition LENGTH_CODES :: int where "LENGTH_CODES = 29"
definition LITERALS :: int where "LITERALS = 256"
definition L_CODES :: int where "L_CODES = LITERALS + 1 + LENGTH_CODES"
definition D_CODES :: int where "D_CODES = 30"
definition BL_CODES :: int where "BL_CODES = 19"
definition HEAP_SIZE :: int where "HEAP_SIZE = 2 * L_CODES + 1"
definition MAX_BITS :: int where "MAX_BITS = 15"
definition Buf_size :: int where "Buf_size = 16"
definition MAX_BL_BITS :: int where "MAX_BL_BITS = 7"
definition END_BLOCK :: int where "END_BLOCK = 256"
definition REP_3_6 :: int where "REP_3_6 = 16"
definition REPZ_3_10 :: int where "REPZ_3_10 = 17"
definition REPZ_11_138 :: int where "REPZ_11_138 = 18"
definition SMALLEST :: int where "SMALLEST = 1"

text \<open>
  Modelled from the spec: \<^verbatim>\<open>zutil.hpp\<close> and the zlib header, which define the block
  types and the data type and strategy codes, are missing from the sources. The block
  type is the 2-bit field of the block header: stored, static, dynamic.
\<close>

definition STORED_BLOCK :: int where "STORED_BLOCK = 0"
definition STATIC_TREES :: int where "STATIC_TREES = 1"
definition DYN_TREES :: int where "DYN_TREES = 2"
definition Z_BINARY :: int where "Z_BINARY = 0"
definition Z_TEXT :: int where "Z_TEXT = 1"
definition Z_UNKNOWN :: int where "Z_UNKNOWN = 2"
definition Z_FIXED :: int where "Z_FIXED = 4"

definition extra_lbits :: "int list" where
  "extra_lbits = [0,0,0,0,0,0,0,0,1,1,1,1,2,2,2,2,3,3,3,3,4,4,4,4,5,5,5,5,0]"

definition extra_dbits :: "int list" where
  "extra_dbits = [0,0,0,0,1,1,2,2,3,3,4,4,5,5,6,6,7,7,8,8,9,9,10,10,11,11,12,12,13,13]"

definition extra_blbits :: "int list" where
  "extra_blbits = [0,0,0,0,0,0,0,0,0,0,0,0,0,0,0,0,2,3,7]"

definition bl_order :: "int list" where
  "bl_order = [16,17,18,0,8,7,9,6,10,5,11,4,12,3,13,2,14,1,15]"

subsection \<open>Data\<close>

text \<open>
  An array access with an index that is computed at run time: outside the array the
  behaviour of the code is undefined, which is the result \<open>None\<close>. Every function that
  can reach such an access returns an option; \<open>None\<close> also stands for a loop that never
  exits.
\<close>

definition rd :: "'a list \<Rightarrow> int \<Rightarrow> 'a option" where
  "rd xs i = (if 0 \<le> i \<and> i < int (length xs) then Some (xs ! nat i) else None)"

definition wr :: "'a list \<Rightarrow> int \<Rightarrow> 'a \<Rightarrow> 'a list option" where
  "wr xs i v = (if 0 \<le> i \<and> i < int (length xs) then Some (xs[nat i := v]) else None)"

text \<open>A \<^verbatim>\<open>for\<close> loop over a fixed range whose body can fail.\<close>

fun foldM :: "('a \<Rightarrow> 's \<Rightarrow> 's option) \<Rightarrow> 'a list \<Rightarrow> 's \<Rightarrow> 's option" where
  "foldM f [] s = Some s"
| "foldM f (x # xs) s = (case f x s of None \<Rightarrow> None | Some s' \<Rightarrow> foldM f xs s')"

text \<open>
  \<^verbatim>\<open>ct_data\<close>: two unions of two \<^verbatim>\<open>ush\<close> each. \<^verbatim>\<open>Freq\<close> and \<^verbatim>\<open>Code\<close> are the field
  \<open>fc\<close>, \<^verbatim>\<open>Dad\<close> and \<^verbatim>\<open>Len\<close> are the field \<open>dl\<close>.
\<close>

record ct_data =
  fc :: u16
  dl :: u16

record static_tree_desc =
  static_tree :: "ct_data list option"
  extra_bits :: "int list"
  extra_base :: int
  elems :: int
  max_length :: int

text \<open>
  The constant tables of \<^verbatim>\<open>trees.hpp\<close>, which is missing from the sources: they are a
  parameter of every function that reads them.
\<close>

record tables =
  static_ltree :: "ct_data list"
  static_dtree :: "ct_data list"
  dist_code :: "u8 list"
  length_code :: "u8 list"
  base_length :: "int list"
  base_dist :: "int list"

text \<open>
  A pointer to one of the three dynamic trees of the state, and with it the
  \<^verbatim>\<open>tree_desc\<close> that owns the tree.
\<close>

datatype tree_id = LTREE | DTREE | BLTREE

text \<open>
  The fields of \<^verbatim>\<open>deflate_state\<close> that \<^verbatim>\<open>trees.cpp\<close> uses. \<open>l_max_code\<close>, \<open>d_max_code\<close>
  and \<open>bl_max_code\<close> are the \<^verbatim>\<open>max_code\<close> fields of \<^verbatim>\<open>l_desc\<close>, \<^verbatim>\<open>d_desc\<close> and
  \<^verbatim>\<open>bl_desc\<close>; \<open>strm_data_type\<close> is \<^verbatim>\<open>strm->data_type\<close>.
\<close>

record deflate_state =
  strm_data_type :: int
  pending_buf :: "u8 list"
  pending :: u32
  level :: int
  strategy :: int
  dyn_ltree :: "ct_data list"
  dyn_dtree :: "ct_data list"
  bl_tree :: "ct_data list"
  l_max_code :: int
  d_max_code :: int
  bl_max_code :: int
  bl_count :: "u16 list"
  heap :: "int list"
  heap_len :: int
  heap_max :: int
  depth :: "u8 list"
  sym_buf :: "u8 list"
  lit_bufsize :: u32
  sym_next :: u32
  sym_end :: u32
  opt_len :: u32
  static_len :: u32
  matches :: u32
  bi_buf :: u16
  bi_valid :: int

fun dyn_tree :: "deflate_state \<Rightarrow> tree_id \<Rightarrow> ct_data list" where
  "dyn_tree s LTREE = dyn_ltree s"
| "dyn_tree s DTREE = dyn_dtree s"
| "dyn_tree s BLTREE = bl_tree s"

fun set_dyn_tree :: "tree_id \<Rightarrow> ct_data list \<Rightarrow> deflate_state \<Rightarrow> deflate_state" where
  "set_dyn_tree LTREE t s = s\<lparr>dyn_ltree := t\<rparr>"
| "set_dyn_tree DTREE t s = s\<lparr>dyn_dtree := t\<rparr>"
| "set_dyn_tree BLTREE t s = s\<lparr>bl_tree := t\<rparr>"

fun desc_max_code :: "deflate_state \<Rightarrow> tree_id \<Rightarrow> int" where
  "desc_max_code s LTREE = l_max_code s"
| "desc_max_code s DTREE = d_max_code s"
| "desc_max_code s BLTREE = bl_max_code s"

fun set_max_code :: "tree_id \<Rightarrow> int \<Rightarrow> deflate_state \<Rightarrow> deflate_state" where
  "set_max_code LTREE m s = s\<lparr>l_max_code := m\<rparr>"
| "set_max_code DTREE m s = s\<lparr>d_max_code := m\<rparr>"
| "set_max_code BLTREE m s = s\<lparr>bl_max_code := m\<rparr>"

text \<open>\<^verbatim>\<open>static_l_desc\<close>, \<^verbatim>\<open>static_d_desc\<close> and \<^verbatim>\<open>static_bl_desc\<close>.\<close>

fun stat_desc :: "tables \<Rightarrow> tree_id \<Rightarrow> static_tree_desc" where
  "stat_desc tb LTREE =
     \<lparr>static_tree = Some (static_ltree tb), extra_bits = extra_lbits,
      extra_base = LITERALS + 1, elems = L_CODES, max_length = MAX_BITS\<rparr>"
| "stat_desc tb DTREE =
     \<lparr>static_tree = Some (static_dtree tb), extra_bits = extra_dbits,
      extra_base = 0, elems = D_CODES, max_length = MAX_BITS\<rparr>"
| "stat_desc tb BLTREE =
     \<lparr>static_tree = None, extra_bits = extra_blbits,
      extra_base = 0, elems = BL_CODES, max_length = MAX_BL_BITS\<rparr>"

text \<open>Reading and writing an element of the tree a pointer designates.\<close>

definition tree_rd :: "deflate_state \<Rightarrow> tree_id \<Rightarrow> int \<Rightarrow> ct_data option" where
  "tree_rd s tree n = rd (dyn_tree s tree) n"

definition tree_wr :: "deflate_state \<Rightarrow> tree_id \<Rightarrow> int \<Rightarrow> ct_data \<Rightarrow> deflate_state option" where
  "tree_wr s tree n v = do {
     t \<leftarrow> wr (dyn_tree s tree) n v;
     Some (set_dyn_tree tree t s)
   }"

subsection \<open>Bit writer\<close>

definition put_byte :: "deflate_state \<Rightarrow> u8 \<Rightarrow> deflate_state option" where
  "put_byte s c = do {
     pb \<leftarrow> wr (pending_buf s) (uint (pending s)) c;
     Some (s\<lparr>pending_buf := pb, pending := pending s + 1\<rparr>)
   }"

definition put_short :: "deflate_state \<Rightarrow> u16 \<Rightarrow> deflate_state option" where
  "put_short s w = do {
     s \<leftarrow> put_byte s (ucast (w AND 0xff));
     put_byte s (ucast (drop_bit 8 w))
   }"

text \<open>
  \<^verbatim>\<open>bi_reverse\<close>: the \<^verbatim>\<open>do ... while (--len > 0)\<close> loop on \<open>(code, len, res)\<close>.
\<close>

function bi_reverse_loop :: "u32 \<Rightarrow> int \<Rightarrow> u32 \<Rightarrow> u32" where
  "bi_reverse_loop code len res =
     (let res = res OR (code AND 1);
          code = drop_bit 1 code;
          res = push_bit 1 res;
          len = len - 1
      in if len > 0 then bi_reverse_loop code len res else res)"
  by pat_completeness auto
termination
  by (relation "measure (\<lambda>(code, len, res). nat len)") auto

declare bi_reverse_loop.simps [simp del]

definition bi_reverse :: "u32 \<Rightarrow> int \<Rightarrow> u32" where
  "bi_reverse code len = drop_bit 1 (bi_reverse_loop code len 0)"

definition bi_flush :: "deflate_state \<Rightarrow> deflate_state option" where
  "bi_flush s =
     (if bi_valid s = 16 then do {
        s \<leftarrow> put_short s (bi_buf s);
        Some (s\<lparr>bi_buf := 0, bi_valid := 0\<rparr>)
      } else if bi_valid s \<ge> 8 then do {
        s \<leftarrow> put_byte s (ucast (bi_buf s));
        Some (s\<lparr>bi_buf := drop_bit 8 (bi_buf s), bi_valid := bi_valid s - 8\<rparr>)
      } else Some s)"

definition bi_windup :: "deflate_state \<Rightarrow> deflate_state option" where
  "bi_windup s = do {
     s \<leftarrow> (if bi_valid s > 8 then put_short s (bi_buf s)
          else if bi_valid s > 0 then put_byte s (ucast (bi_buf s))
          else Some s);
     Some (s\<lparr>bi_buf := 0, bi_valid := 0\<rparr>)
   }"

text \<open>
  The macro \<^verbatim>\<open>send_bits(s, value, length)\<close>. The macro casts \<open>value\<close> to \<^verbatim>\<open>ush\<close> before
  every use, so the model takes it as a 16-bit word. The shift counts \<open>bi_valid\<close> and
  \<open>Buf_size - bi_valid\<close> are in range whenever \<open>0 \<le> bi_valid \<le> 16\<close>.
\<close>

definition send_bits :: "deflate_state \<Rightarrow> u16 \<Rightarrow> int \<Rightarrow> deflate_state option" where
  "send_bits s val length' =
     (let len = length'
      in if bi_valid s > Buf_size - len then do {
           let s = s\<lparr>bi_buf := bi_buf s OR push_bit (nat (bi_valid s)) val\<rparr>;
           s \<leftarrow> put_short s (bi_buf s);
           Some (s\<lparr>bi_buf := drop_bit (nat (Buf_size - bi_valid s)) val,
                   bi_valid := bi_valid s + (len - Buf_size)\<rparr>)
         } else
           Some (s\<lparr>bi_buf := bi_buf s OR push_bit (nat (bi_valid s)) val,
                   bi_valid := bi_valid s + len\<rparr>))"

text \<open>\<^verbatim>\<open>send_code(s, c, tree)\<close> is \<^verbatim>\<open>send_bits(s, tree[c].Code, tree[c].Len)\<close>.\<close>

definition send_code :: "deflate_state \<Rightarrow> int \<Rightarrow> ct_data list \<Rightarrow> deflate_state option" where
  "send_code s c tree = do {
     t \<leftarrow> rd tree c;
     send_bits s (fc t) (uint (dl t))
   }"

subsection \<open>Code assignment\<close>

text \<open>
  \<^verbatim>\<open>gen_codes\<close>. The first loop fills \<open>next_code[1..MAX_BITS]\<close>; entry 0 of the local
  array is never written and never read (a symbol of length 0 is skipped), the model
  holds 0 there.
\<close>

definition gen_codes_next :: "u16 list \<Rightarrow> (u32 \<times> u16 list) option" where
  "gen_codes_next bl_count' =
     foldM (\<lambda>bits (code, next_code). do {
              c \<leftarrow> rd bl_count' (bits - 1);
              let code = push_bit 1 (code + ucast c);
              nc \<leftarrow> wr next_code bits (ucast code);
              Some (code, nc)
            })
       [1..MAX_BITS] (0, replicate (nat (MAX_BITS + 1)) 0)"

definition gen_codes_step ::
  "int \<Rightarrow> ct_data list \<times> u16 list \<Rightarrow> (ct_data list \<times> u16 list) option" where
  "gen_codes_step n = (\<lambda>(tree, next_code). do {
     t \<leftarrow> rd tree n;
     let len = uint (dl t);
     if len = 0 then Some (tree, next_code)
     else do {
       c \<leftarrow> rd next_code len;
       nc \<leftarrow> wr next_code len (c + 1);
       tree \<leftarrow> wr tree n (t\<lparr>fc := ucast (bi_reverse (ucast c) len)\<rparr>);
       Some (tree, nc)
     }
   })"

definition gen_codes :: "ct_data list \<Rightarrow> int \<Rightarrow> u16 list \<Rightarrow> ct_data list option" where
  "gen_codes tree max_code bl_count' = do {
     (code, next_code) \<leftarrow> gen_codes_next bl_count';
     (tree, next_code) \<leftarrow> foldM gen_codes_step [0..max_code] (tree, next_code);
     Some tree
   }"

subsection \<open>Block initialisation\<close>

definition clear_freq :: "int \<Rightarrow> ct_data list \<Rightarrow> ct_data list" where
  "clear_freq n tree = fold (\<lambda>i t. t[i := (t ! i)\<lparr>fc := 0\<rparr>]) [0..<nat n] tree"

text \<open>
  \<^verbatim>\<open>init_block\<close>: the three loops run over the first \<open>L_CODES\<close>, \<open>D_CODES\<close> and
  \<open>BL_CODES\<close> elements of arrays that are declared with \<open>HEAP_SIZE\<close>, \<open>2 * D_CODES + 1\<close>
  and \<open>2 * BL_CODES + 1\<close> elements.
\<close>

definition init_block :: "deflate_state \<Rightarrow> deflate_state" where
  "init_block s =
     (let s = s\<lparr>dyn_ltree := clear_freq L_CODES (dyn_ltree s)\<rparr>;
          s = s\<lparr>dyn_dtree := clear_freq D_CODES (dyn_dtree s)\<rparr>;
          s = s\<lparr>bl_tree := clear_freq BL_CODES (bl_tree s)\<rparr>;
          s = s\<lparr>dyn_ltree := (dyn_ltree s)[nat END_BLOCK := (dyn_ltree s ! nat END_BLOCK)\<lparr>fc := 1\<rparr>]\<rparr>;
          s = s\<lparr>opt_len := 0, static_len := 0\<rparr>;
          s = s\<lparr>sym_next := 0, matches := 0\<rparr>
      in s)"

definition tr_init :: "deflate_state \<Rightarrow> deflate_state" where
  "tr_init s = init_block (s\<lparr>bi_buf := 0, bi_valid := 0\<rparr>)"

subsection \<open>Heap\<close>

text \<open>
  The macro \<^verbatim>\<open>smaller(tree, n, m, depth)\<close>; the depths are read only when the
  frequencies are equal.
\<close>

definition smaller :: "deflate_state \<Rightarrow> tree_id \<Rightarrow> int \<Rightarrow> int \<Rightarrow> bool option" where
  "smaller s tree n m = do {
     tn \<leftarrow> tree_rd s tree n;
     tm \<leftarrow> tree_rd s tree m;
     if fc tn < fc tm then Some True
     else if fc tn = fc tm then do {
       dn \<leftarrow> rd (depth s) n;
       dm \<leftarrow> rd (depth s) m;
       Some (dn \<le> dm)
     } else Some False
   }"

text \<open>
  \<^verbatim>\<open>pqdownheap\<close>: the \<^verbatim>\<open>while (j <= s->heap_len)\<close> loop on \<open>(k, j)\<close> with the saved
  element \<open>v\<close>, then the final store \<^verbatim>\<open>s->heap[k] = v\<close>.
\<close>

partial_function (option) pqdownheap_loop ::
  "deflate_state \<Rightarrow> tree_id \<Rightarrow> int \<Rightarrow> int \<Rightarrow> int \<Rightarrow> deflate_state option" where
  "pqdownheap_loop s tree v k j =
     (if j \<le> heap_len s then do {
        j \<leftarrow> (if j < heap_len s then do {
                a \<leftarrow> rd (heap s) (j + 1);
                b \<leftarrow> rd (heap s) j;
                sm \<leftarrow> smaller s tree a b;
                Some (if sm then j + 1 else j)
              } else Some j);
        hj \<leftarrow> rd (heap s) j;
        sm \<leftarrow> smaller s tree v hj;
        if sm then do {
          h \<leftarrow> wr (heap s) k v;
          Some (s\<lparr>heap := h\<rparr>)
        } else do {
          h \<leftarrow> wr (heap s) k hj;
          pqdownheap_loop (s\<lparr>heap := h\<rparr>) tree v j (2 * j)
        }
      } else do {
        h \<leftarrow> wr (heap s) k v;
        Some (s\<lparr>heap := h\<rparr>)
      })"

definition pqdownheap :: "deflate_state \<Rightarrow> tree_id \<Rightarrow> int \<Rightarrow> deflate_state option" where
  "pqdownheap s tree k = do {
     v \<leftarrow> rd (heap s) k;
     pqdownheap_loop s tree v k (2 * k)
   }"

text \<open>The macro \<^verbatim>\<open>pqremove(s, tree, top)\<close>; the result carries \<open>top\<close>.\<close>

definition pqremove :: "deflate_state \<Rightarrow> tree_id \<Rightarrow> (deflate_state \<times> int) option" where
  "pqremove s tree = do {
     top \<leftarrow> rd (heap s) SMALLEST;
     last \<leftarrow> rd (heap s) (heap_len s);
     h \<leftarrow> wr (heap s) SMALLEST last;
     s \<leftarrow> pqdownheap (s\<lparr>heap := h, heap_len := heap_len s - 1\<rparr>) tree SMALLEST;
     Some (s, top)
   }"

subsection \<open>Bit lengths\<close>

text \<open>
  The body of the first loop of \<^verbatim>\<open>gen_bitlen\<close>,
  \<^verbatim>\<open>for (h = s->heap_max + 1; h < HEAP_SIZE; h++)\<close>, on the state and the counter
  \<open>overflow\<close>.
\<close>

definition gen_bitlen_step ::
  "tables \<Rightarrow> tree_id \<Rightarrow> int \<Rightarrow> deflate_state \<times> int \<Rightarrow> (deflate_state \<times> int) option" where
  "gen_bitlen_step tb desc h = (\<lambda>(s, overflow). do {
     n \<leftarrow> rd (heap s) h;
     tn \<leftarrow> tree_rd s desc n;
     tdad \<leftarrow> tree_rd s desc (uint (dl tn));
     let bits = uint (dl tdad) + 1;
     let (bits, overflow) =
           (if bits > max_length (stat_desc tb desc)
            then (max_length (stat_desc tb desc), overflow + 1)
            else (bits, overflow));
     s \<leftarrow> tree_wr s desc n (tn\<lparr>dl := word_of_int bits\<rparr>);
     if n > desc_max_code s desc then Some (s, overflow)
     else do {
       c \<leftarrow> rd (bl_count s) bits;
       bc \<leftarrow> wr (bl_count s) bits (c + 1);
       let s = s\<lparr>bl_count := bc\<rparr>;
       xbits \<leftarrow> (if n \<ge> extra_base (stat_desc tb desc)
                 then rd (extra_bits (stat_desc tb desc)) (n - extra_base (stat_desc tb desc))
                 else Some 0);
       let f = fc tn;
       let s = s\<lparr>opt_len := opt_len s + ucast f * word_of_int (bits + xbits)\<rparr>;
       case static_tree (stat_desc tb desc) of
         None \<Rightarrow> Some (s, overflow)
       | Some stree \<Rightarrow> do {
           st \<leftarrow> rd stree n;
           Some (s\<lparr>static_len := static_len s + ucast f * word_of_int (uint (dl st) + xbits)\<rparr>,
                 overflow)
         }
     }
   })"

text \<open>\<^verbatim>\<open>while (s->bl_count[bits] == 0) bits--\<close>.\<close>

partial_function (option) find_bits :: "u16 list \<Rightarrow> int \<Rightarrow> int option" where
  "find_bits bl_count' bits = do {
     c \<leftarrow> rd bl_count' bits;
     if c = 0 then find_bits bl_count' (bits - 1) else Some bits
   }"

text \<open>The repair loop \<^verbatim>\<open>do { ... } while (overflow > 0)\<close> on \<open>bl_count\<close>.\<close>

partial_function (option) repair_loop :: "u16 list \<Rightarrow> int \<Rightarrow> int \<Rightarrow> u16 list option" where
  "repair_loop bl_count' max_length' overflow = do {
     bits \<leftarrow> find_bits bl_count' (max_length' - 1);
     c \<leftarrow> rd bl_count' bits;
     bc \<leftarrow> wr bl_count' bits (c - 1);
     c \<leftarrow> rd bc (bits + 1);
     bc \<leftarrow> wr bc (bits + 1) (c + 2);
     c \<leftarrow> rd bc max_length';
     bc \<leftarrow> wr bc max_length' (c - 1);
     let overflow = overflow - 2;
     if overflow > 0 then repair_loop bc max_length' overflow else Some bc
   }"

text \<open>
  The inner loop \<^verbatim>\<open>while (n != 0)\<close> of the last phase of \<^verbatim>\<open>gen_bitlen\<close>, on the state,
  the heap index \<open>h\<close> and the count \<open>n\<close>.
\<close>

partial_function (option) relen_loop ::
  "deflate_state \<Rightarrow> tree_id \<Rightarrow> int \<Rightarrow> int \<Rightarrow> int \<Rightarrow> (deflate_state \<times> int) option" where
  "relen_loop s desc bits h n =
     (if n \<noteq> 0 then do {
        let h = h - 1;
        m \<leftarrow> rd (heap s) h;
        if m > desc_max_code s desc then relen_loop s desc bits h n
        else do {
          tm \<leftarrow> tree_rd s desc m;
          if uint (dl tm) \<noteq> bits then do {
            let s = s\<lparr>opt_len := opt_len s + (word_of_int bits - ucast (dl tm)) * ucast (fc tm)\<rparr>;
            s \<leftarrow> tree_wr s desc m (tm\<lparr>dl := word_of_int bits\<rparr>);
            relen_loop s desc bits h (n - 1)
          } else relen_loop s desc bits h (n - 1)
        }
      } else Some (s, h))"

definition relen_step ::
  "tree_id \<Rightarrow> int \<Rightarrow> deflate_state \<times> int \<Rightarrow> (deflate_state \<times> int) option" where
  "relen_step desc bits = (\<lambda>(s, h). do {
     n \<leftarrow> rd (bl_count s) bits;
     relen_loop s desc bits h (uint n)
   })"

definition gen_bitlen :: "tables \<Rightarrow> deflate_state \<Rightarrow> tree_id \<Rightarrow> deflate_state option" where
  "gen_bitlen tb s desc = do {
     let s = s\<lparr>bl_count := fold (\<lambda>bits bc. bc[bits := 0]) [0..<nat (MAX_BITS + 1)] (bl_count s)\<rparr>;
     root \<leftarrow> rd (heap s) (heap_max s);
     tr \<leftarrow> tree_rd s desc root;
     s \<leftarrow> tree_wr s desc root (tr\<lparr>dl := 0\<rparr>);
     (s, overflow) \<leftarrow> foldM (gen_bitlen_step tb desc) [heap_max s + 1..HEAP_SIZE - 1] (s, 0);
     let h = max (heap_max s + 1) HEAP_SIZE;
     if overflow = 0 then Some s
     else do {
       bc \<leftarrow> repair_loop (bl_count s) (max_length (stat_desc tb desc)) overflow;
       (s, h) \<leftarrow> foldM (relen_step desc) (rev [1..max_length (stat_desc tb desc)])
                   (s\<lparr>bl_count := bc\<rparr>, h);
       Some s
     }
   }"

subsection \<open>Tree construction\<close>

text \<open>
  The body of the first loop of \<^verbatim>\<open>build_tree\<close>, \<^verbatim>\<open>for (n = 0; n < elems; n++)\<close>, on
  the state and the local \<open>max_code\<close>.
\<close>

definition build_tree_init ::
  "tree_id \<Rightarrow> int \<Rightarrow> deflate_state \<times> int \<Rightarrow> (deflate_state \<times> int) option" where
  "build_tree_init desc n = (\<lambda>(s, max_code). do {
     t \<leftarrow> tree_rd s desc n;
     if fc t \<noteq> 0 then do {
       let s = s\<lparr>heap_len := heap_len s + 1\<rparr>;
       h \<leftarrow> wr (heap s) (heap_len s) n;
       d \<leftarrow> wr (depth s) n 0;
       Some (s\<lparr>heap := h, depth := d\<rparr>, n)
     } else do {
       s \<leftarrow> tree_wr s desc n (t\<lparr>dl := 0\<rparr>);
       Some (s, max_code)
     }
   })"

text \<open>\<^verbatim>\<open>while (s->heap_len < 2)\<close>: the tree gets at least two leaves.\<close>

partial_function (option) build_tree_force ::
  "tables \<Rightarrow> tree_id \<Rightarrow> deflate_state \<Rightarrow> int \<Rightarrow> (deflate_state \<times> int) option" where
  "build_tree_force tb desc s max_code =
     (if heap_len s < 2 then do {
        let (max_code, node) =
              (if max_code < 2 then (max_code + 1, max_code + 1) else (max_code, 0));
        let s = s\<lparr>heap_len := heap_len s + 1\<rparr>;
        h \<leftarrow> wr (heap s) (heap_len s) node;
        let s = s\<lparr>heap := h\<rparr>;
        t \<leftarrow> tree_rd s desc node;
        s \<leftarrow> tree_wr s desc node (t\<lparr>fc := 1\<rparr>);
        d \<leftarrow> wr (depth s) node 0;
        let s = s\<lparr>depth := d, opt_len := opt_len s - 1\<rparr>;
        s \<leftarrow> (case static_tree (stat_desc tb desc) of
                None \<Rightarrow> Some s
              | Some stree \<Rightarrow> do {
                  st \<leftarrow> rd stree node;
                  Some (s\<lparr>static_len := static_len s - ucast (dl st)\<rparr>)
                });
        build_tree_force tb desc s max_code
      } else Some (s, max_code))"

text \<open>
  The construction loop \<^verbatim>\<open>do { ... } while (s->heap_len >= 2)\<close> on the state and the
  next internal node \<open>node\<close>.
\<close>

partial_function (option) build_tree_loop ::
  "tree_id \<Rightarrow> deflate_state \<Rightarrow> int \<Rightarrow> (deflate_state \<times> int) option" where
  "build_tree_loop desc s node = do {
     (s, n) \<leftarrow> pqremove s desc;
     m \<leftarrow> rd (heap s) SMALLEST;
     let s = s\<lparr>heap_max := heap_max s - 1\<rparr>;
     h \<leftarrow> wr (heap s) (heap_max s) n;
     let s = s\<lparr>heap := h, heap_max := heap_max s - 1\<rparr>;
     h \<leftarrow> wr (heap s) (heap_max s) m;
     let s = s\<lparr>heap := h\<rparr>;
     tn \<leftarrow> tree_rd s desc n;
     tm \<leftarrow> tree_rd s desc m;
     tnode \<leftarrow> tree_rd s desc node;
     s \<leftarrow> tree_wr s desc node (tnode\<lparr>fc := fc tn + fc tm\<rparr>);
     dn \<leftarrow> rd (depth s) n;
     dm \<leftarrow> rd (depth s) m;
     d \<leftarrow> wr (depth s) node ((if dn \<ge> dm then dn else dm) + 1);
     let s = s\<lparr>depth := d\<rparr>;
     tm \<leftarrow> tree_rd s desc m;
     s \<leftarrow> tree_wr s desc m (tm\<lparr>dl := word_of_int node\<rparr>);
     tn \<leftarrow> tree_rd s desc n;
     s \<leftarrow> tree_wr s desc n (tn\<lparr>dl := word_of_int node\<rparr>);
     h \<leftarrow> wr (heap s) SMALLEST node;
     s \<leftarrow> pqdownheap (s\<lparr>heap := h\<rparr>) desc SMALLEST;
     if heap_len s \<ge> 2 then build_tree_loop desc s (node + 1) else Some (s, node + 1)
   }"

definition build_tree :: "tables \<Rightarrow> deflate_state \<Rightarrow> tree_id \<Rightarrow> deflate_state option" where
  "build_tree tb s desc = do {
     let s = s\<lparr>heap_len := 0, heap_max := HEAP_SIZE\<rparr>;
     (s, max_code) \<leftarrow> foldM (build_tree_init desc) [0..elems (stat_desc tb desc) - 1] (s, - 1);
     (s, max_code) \<leftarrow> build_tree_force tb desc s max_code;
     let s = set_max_code desc max_code s;
     s \<leftarrow> foldM (\<lambda>n s. pqdownheap s desc n) (rev [1..heap_len s div 2]) s;
     (s, node) \<leftarrow> build_tree_loop desc s (elems (stat_desc tb desc));
     r \<leftarrow> rd (heap s) SMALLEST;
     let s = s\<lparr>heap_max := heap_max s - 1\<rparr>;
     h \<leftarrow> wr (heap s) (heap_max s) r;
     s \<leftarrow> gen_bitlen tb (s\<lparr>heap := h\<rparr>) desc;
     t \<leftarrow> gen_codes (dyn_tree s desc) max_code (bl_count s);
     Some (set_dyn_tree desc t s)
   }"

subsection \<open>Sending the trees\<close>

text \<open>\<^verbatim>\<open>s->bl_tree[i].Freq += k\<close>.\<close>

definition bl_freq_add :: "deflate_state \<Rightarrow> int \<Rightarrow> u16 \<Rightarrow> deflate_state option" where
  "bl_freq_add s i k = do {
     t \<leftarrow> rd (bl_tree s) i;
     bt \<leftarrow> wr (bl_tree s) i (t\<lparr>fc := fc t + k\<rparr>);
     Some (s\<lparr>bl_tree := bt\<rparr>)
   }"

text \<open>
  The locals of \<^verbatim>\<open>scan_tree\<close> and \<^verbatim>\<open>send_tree\<close> that live across the iterations of
  their loop.
\<close>

record run_state =
  prevlen :: int
  nextlen :: int
  count :: int
  max_count :: int
  min_count :: int

text \<open>The end of the loop body, shared by \<^verbatim>\<open>scan_tree\<close> and \<^verbatim>\<open>send_tree\<close>.\<close>

definition run_next :: "run_state \<Rightarrow> int \<Rightarrow> run_state" where
  "run_next r curlen =
     (let r = r\<lparr>count := 0, prevlen := curlen\<rparr>
      in if nextlen r = 0 then r\<lparr>max_count := 138, min_count := 3\<rparr>
         else if curlen = nextlen r then r\<lparr>max_count := 6, min_count := 3\<rparr>
         else r\<lparr>max_count := 7, min_count := 4\<rparr>)"

definition scan_tree_step ::
  "tree_id \<Rightarrow> int \<Rightarrow> deflate_state \<times> run_state \<Rightarrow> (deflate_state \<times> run_state) option" where
  "scan_tree_step tree n = (\<lambda>(s, r). do {
     let curlen = nextlen r;
     t \<leftarrow> tree_rd s tree (n + 1);
     let r = r\<lparr>nextlen := uint (dl t), count := count r + 1\<rparr>;
     if count r < max_count r \<and> curlen = nextlen r then Some (s, r)
     else do {
       s \<leftarrow> (if count r < min_count r then bl_freq_add s curlen (word_of_int (count r))
             else if curlen \<noteq> 0 then do {
               s \<leftarrow> (if curlen \<noteq> prevlen r then bl_freq_add s curlen 1 else Some s);
               bl_freq_add s REP_3_6 1
             }
             else if count r \<le> 10 then bl_freq_add s REPZ_3_10 1
             else bl_freq_add s REPZ_11_138 1);
       Some (s, run_next r curlen)
     }
   })"

definition scan_tree :: "deflate_state \<Rightarrow> tree_id \<Rightarrow> int \<Rightarrow> deflate_state option" where
  "scan_tree s tree max_code = do {
     t0 \<leftarrow> tree_rd s tree 0;
     let r = \<lparr>prevlen = - 1, nextlen = uint (dl t0), count = 0, max_count = 7, min_count = 4\<rparr>;
     let r = (if nextlen r = 0 then r\<lparr>max_count := 138, min_count := 3\<rparr> else r);
     tg \<leftarrow> tree_rd s tree (max_code + 1);
     s \<leftarrow> tree_wr s tree (max_code + 1) (tg\<lparr>dl := 0xffff\<rparr>);
     (s, r) \<leftarrow> foldM (scan_tree_step tree) [0..max_code] (s, r);
     Some s
   }"

text \<open>\<^verbatim>\<open>do { send_code(s, curlen, s->bl_tree); } while (--count != 0)\<close>.\<close>

partial_function (option) send_repeat :: "deflate_state \<Rightarrow> int \<Rightarrow> int \<Rightarrow> deflate_state option" where
  "send_repeat s curlen count' = do {
     s \<leftarrow> send_code s curlen (bl_tree s);
     let c = count' - 1;
     if c \<noteq> 0 then send_repeat s curlen c else Some s
   }"

definition send_tree_step ::
  "tree_id \<Rightarrow> int \<Rightarrow> deflate_state \<times> run_state \<Rightarrow> (deflate_state \<times> run_state) option" where
  "send_tree_step tree n = (\<lambda>(s, r). do {
     let curlen = nextlen r;
     t \<leftarrow> tree_rd s tree (n + 1);
     let r = r\<lparr>nextlen := uint (dl t), count := count r + 1\<rparr>;
     if count r < max_count r \<and> curlen = nextlen r then Some (s, r)
     else do {
       s \<leftarrow> (if count r < min_count r then send_repeat s curlen (count r)
             else if curlen \<noteq> 0 then do {
               (s, c) \<leftarrow> (if curlen \<noteq> prevlen r then do {
                             s \<leftarrow> send_code s curlen (bl_tree s);
                             Some (s, count r - 1)
                           } else Some (s, count r));
               s \<leftarrow> send_code s REP_3_6 (bl_tree s);
               send_bits s (word_of_int (c - 3)) 2
             }
             else if count r \<le> 10 then do {
               s \<leftarrow> send_code s REPZ_3_10 (bl_tree s);
               send_bits s (word_of_int (count r - 3)) 3
             }
             else do {
               s \<leftarrow> send_code s REPZ_11_138 (bl_tree s);
               send_bits s (word_of_int (count r - 11)) 7
             });
       Some (s, run_next r curlen)
     }
   })"

definition send_tree :: "deflate_state \<Rightarrow> tree_id \<Rightarrow> int \<Rightarrow> deflate_state option" where
  "send_tree s tree max_code = do {
     t0 \<leftarrow> tree_rd s tree 0;
     let r = \<lparr>prevlen = - 1, nextlen = uint (dl t0), count = 0, max_count = 7, min_count = 4\<rparr>;
     let r = (if nextlen r = 0 then r\<lparr>max_count := 138, min_count := 3\<rparr> else r);
     (s, r) \<leftarrow> foldM (send_tree_step tree) [0..max_code] (s, r);
     Some s
   }"

text \<open>
  The loop of \<^verbatim>\<open>build_bl_tree\<close>,
  \<^verbatim>\<open>for (max_blindex = BL_CODES - 1; max_blindex >= 3; max_blindex--)\<close>, which exits
  by \<^verbatim>\<open>break\<close> at the first code length in use.
\<close>

partial_function (option) find_blindex :: "deflate_state \<Rightarrow> int \<Rightarrow> int option" where
  "find_blindex s max_blindex =
     (if max_blindex \<ge> 3 then do {
        i \<leftarrow> rd bl_order max_blindex;
        t \<leftarrow> rd (bl_tree s) i;
        if dl t \<noteq> 0 then Some max_blindex else find_blindex s (max_blindex - 1)
      } else Some max_blindex)"

definition build_bl_tree :: "tables \<Rightarrow> deflate_state \<Rightarrow> (deflate_state \<times> int) option" where
  "build_bl_tree tb s = do {
     s \<leftarrow> scan_tree s LTREE (l_max_code s);
     s \<leftarrow> scan_tree s DTREE (d_max_code s);
     s \<leftarrow> build_tree tb s BLTREE;
     max_blindex \<leftarrow> find_blindex s (BL_CODES - 1);
     let s = s\<lparr>opt_len := opt_len s + (3 * (word_of_int max_blindex + 1) + 5 + 5 + 4)\<rparr>;
     Some (s, max_blindex)
   }"

definition send_all_trees :: "deflate_state \<Rightarrow> int \<Rightarrow> int \<Rightarrow> int \<Rightarrow> deflate_state option" where
  "send_all_trees s lcodes dcodes blcodes = do {
     s \<leftarrow> send_bits s (word_of_int (lcodes - 257)) 5;
     s \<leftarrow> send_bits s (word_of_int (dcodes - 1)) 5;
     s \<leftarrow> send_bits s (word_of_int (blcodes - 4)) 4;
     s \<leftarrow> foldM (\<lambda>rank s. do {
                  i \<leftarrow> rd bl_order rank;
                  t \<leftarrow> rd (bl_tree s) i;
                  send_bits s (dl t) 3
                }) [0..blcodes - 1] s;
     s \<leftarrow> send_tree s LTREE (lcodes - 1);
     send_tree s DTREE (dcodes - 1)
   }"

subsection \<open>Blocks\<close>

text \<open>
  \<^verbatim>\<open>zmemcpy(s->pending_buf + s->pending, buf, stored_len)\<close>: the source buffer is the
  list of the bytes \<open>buf\<close> points to; copying more than it holds, or beyond the end of
  \<open>pending_buf\<close>, is undefined.
\<close>

definition zmemcpy_pending :: "deflate_state \<Rightarrow> u8 list \<Rightarrow> u32 \<Rightarrow> deflate_state option" where
  "zmemcpy_pending s buf stored_len =
     (if unat stored_len \<le> length buf \<and>
         unat (pending s) + unat stored_len \<le> length (pending_buf s)
      then Some (s\<lparr>pending_buf :=
                    take (unat (pending s)) (pending_buf s) @ take (unat stored_len) buf @
                    drop (unat (pending s) + unat stored_len) (pending_buf s)\<rparr>)
      else None)"

text \<open>
  \<^verbatim>\<open>_tr_stored_block\<close>; \<open>buf\<close> is \<open>None\<close> for a null pointer.
\<close>

definition tr_stored_block ::
  "deflate_state \<Rightarrow> u8 list option \<Rightarrow> u32 \<Rightarrow> int \<Rightarrow> deflate_state option" where
  "tr_stored_block s buf stored_len last' = do {
     s \<leftarrow> send_bits s (word_of_int (STORED_BLOCK * 2 + last')) 3;
     s \<leftarrow> bi_windup s;
     s \<leftarrow> put_short s (ucast stored_len);
     s \<leftarrow> put_short s (ucast (NOT stored_len));
     s \<leftarrow> (if stored_len \<noteq> 0
           then (case buf of None \<Rightarrow> None | Some b \<Rightarrow> zmemcpy_pending s b stored_len)
           else Some s);
     Some (s\<lparr>pending := pending s + stored_len\<rparr>)
   }"

definition tr_flush_bits :: "deflate_state \<Rightarrow> deflate_state option" where
  "tr_flush_bits s = bi_flush s"

definition tr_align :: "tables \<Rightarrow> deflate_state \<Rightarrow> deflate_state option" where
  "tr_align tb s = do {
     s \<leftarrow> send_bits s (word_of_int (STATIC_TREES * 2)) 3;
     s \<leftarrow> send_code s END_BLOCK (static_ltree tb);
     bi_flush s
   }"

text \<open>The macro \<^verbatim>\<open>d_code(dist)\<close>.\<close>

definition d_code :: "tables \<Rightarrow> u32 \<Rightarrow> u8 option" where
  "d_code tb dist =
     (if dist < 256 then rd (dist_code tb) (uint dist)
      else rd (dist_code tb) (256 + uint (drop_bit 7 dist)))"

text \<open>
  The loop \<^verbatim>\<open>do { ... } while (sx < s->sym_next)\<close> of \<^verbatim>\<open>compress_block\<close> on the state
  and the index \<open>sx\<close>.
\<close>

partial_function (option) compress_loop ::
  "tables \<Rightarrow> ct_data list \<Rightarrow> ct_data list \<Rightarrow> deflate_state \<Rightarrow> u32 \<Rightarrow> deflate_state option" where
  "compress_loop tb ltree dtree s sx = do {
     b0 \<leftarrow> rd (sym_buf s) (uint sx);
     let dist = (ucast (b0 AND 0xff) :: u32);
     let sx = sx + 1;
     b1 \<leftarrow> rd (sym_buf s) (uint sx);
     let dist = dist + push_bit 8 (ucast (b1 AND 0xff));
     let sx = sx + 1;
     b2 \<leftarrow> rd (sym_buf s) (uint sx);
     let lc = uint b2;
     let sx = sx + 1;
     s \<leftarrow> (if dist = 0 then send_code s lc ltree
           else do {
             code \<leftarrow> rd (length_code tb) lc;
             s \<leftarrow> send_code s (uint code + LITERALS + 1) ltree;
             extra \<leftarrow> rd extra_lbits (uint code);
             s \<leftarrow> (if extra \<noteq> 0 then do {
                     bl \<leftarrow> rd (base_length tb) (uint code);
                     send_bits s (word_of_int (lc - bl)) extra
                   } else Some s);
             let dist = dist - 1;
             code \<leftarrow> d_code tb dist;
             s \<leftarrow> send_code s (uint code) dtree;
             extra \<leftarrow> rd extra_dbits (uint code);
             if extra \<noteq> 0 then do {
               bd \<leftarrow> rd (base_dist tb) (uint code);
               send_bits s (ucast (dist - word_of_int bd)) extra
             } else Some s
           });
     if sx < sym_next s then compress_loop tb ltree dtree s sx else Some s
   }"

definition compress_block ::
  "tables \<Rightarrow> deflate_state \<Rightarrow> ct_data list \<Rightarrow> ct_data list \<Rightarrow> deflate_state option" where
  "compress_block tb s ltree dtree = do {
     s \<leftarrow> (if sym_next s \<noteq> 0 then compress_loop tb ltree dtree s 0 else Some s);
     send_code s END_BLOCK ltree
   }"

definition detect_data_type :: "deflate_state \<Rightarrow> int" where
  "detect_data_type s =
     (if \<exists>n \<in> set [0..<32]. bit (0xf3ffc07f :: u32) n \<and> fc (dyn_ltree s ! n) \<noteq> 0 then Z_BINARY
      else if fc (dyn_ltree s ! 9) \<noteq> 0 \<or> fc (dyn_ltree s ! 10) \<noteq> 0 \<or> fc (dyn_ltree s ! 13) \<noteq> 0
      then Z_TEXT
      else if \<exists>n \<in> set [32..<nat LITERALS]. fc (dyn_ltree s ! n) \<noteq> 0 then Z_TEXT
      else Z_BINARY)"

text \<open>
  The first part of \<^verbatim>\<open>_tr_flush_block\<close>: the trees are built and the costs in bytes of
  the encodings are computed. The result is the state with \<open>opt_lenb\<close>, \<open>static_lenb\<close>
  and \<open>max_blindex\<close>.
\<close>

definition flush_block_costs ::
  "tables \<Rightarrow> deflate_state \<Rightarrow> u32 \<Rightarrow> (deflate_state \<times> u32 \<times> u32 \<times> int) option" where
  "flush_block_costs tb s stored_len =
     (if level s > 0 then do {
        let s = (if strm_data_type s = Z_UNKNOWN
                 then s\<lparr>strm_data_type := detect_data_type s\<rparr> else s);
        s \<leftarrow> build_tree tb s LTREE;
        s \<leftarrow> build_tree tb s DTREE;
        (s, max_blindex) \<leftarrow> build_bl_tree tb s;
        let opt_lenb = drop_bit 3 (opt_len s + 3 + 7);
        let static_lenb = drop_bit 3 (static_len s + 3 + 7);
        let opt_lenb = (if static_lenb \<le> opt_lenb \<or> strategy s = Z_FIXED
                        then static_lenb else opt_lenb);
        Some (s, opt_lenb, static_lenb, max_blindex)
      } else Some (s, stored_len + 5, stored_len + 5, 0))"

text \<open>
  The second part of \<^verbatim>\<open>_tr_flush_block\<close>: the block is written in the encoding chosen
  from the costs.
\<close>

definition flush_block_emit ::
  "tables \<Rightarrow> deflate_state \<Rightarrow> u8 list option \<Rightarrow> u32 \<Rightarrow> int \<Rightarrow> u32 \<Rightarrow> u32 \<Rightarrow> int \<Rightarrow>
   deflate_state option" where
  "flush_block_emit tb s buf stored_len last' opt_lenb static_lenb max_blindex =
     (if stored_len + 4 \<le> opt_lenb \<and> buf \<noteq> None
      then tr_stored_block s buf stored_len last'
      else if static_lenb = opt_lenb then do {
        s \<leftarrow> send_bits s (word_of_int (STATIC_TREES * 2 + last')) 3;
        compress_block tb s (static_ltree tb) (static_dtree tb)
      } else do {
        s \<leftarrow> send_bits s (word_of_int (DYN_TREES * 2 + last')) 3;
        s \<leftarrow> send_all_trees s (l_max_code s + 1) (d_max_code s + 1) (max_blindex + 1);
        compress_block tb s (dyn_ltree s) (dyn_dtree s)
      })"

definition tr_flush_block ::
  "tables \<Rightarrow> deflate_state \<Rightarrow> u8 list option \<Rightarrow> u32 \<Rightarrow> int \<Rightarrow> deflate_state option" where
  "tr_flush_block tb s buf stored_len last' = do {
     (s, opt_lenb, static_lenb, max_blindex) \<leftarrow> flush_block_costs tb s stored_len;
     s \<leftarrow> flush_block_emit tb s buf stored_len last' opt_lenb static_lenb max_blindex;
     let s = init_block s;
     if last' \<noteq> 0 then bi_windup s else Some s
   }"

text \<open>\<^verbatim>\<open>_tr_tally\<close>; the result carries the returned flag.\<close>

definition tr_tally :: "tables \<Rightarrow> deflate_state \<Rightarrow> u32 \<Rightarrow> u32 \<Rightarrow> (deflate_state \<times> bool) option" where
  "tr_tally tb s dist lc = do {
     sb \<leftarrow> wr (sym_buf s) (uint (sym_next s)) (ucast dist);
     let s = s\<lparr>sym_buf := sb, sym_next := sym_next s + 1\<rparr>;
     sb \<leftarrow> wr (sym_buf s) (uint (sym_next s)) (ucast (drop_bit 8 dist));
     let s = s\<lparr>sym_buf := sb, sym_next := sym_next s + 1\<rparr>;
     sb \<leftarrow> wr (sym_buf s) (uint (sym_next s)) (ucast lc);
     let s = s\<lparr>sym_buf := sb, sym_next := sym_next s + 1\<rparr>;
     s \<leftarrow> (if dist = 0 then do {
             t \<leftarrow> rd (dyn_ltree s) (uint lc);
             lt \<leftarrow> wr (dyn_ltree s) (uint lc) (t\<lparr>fc := fc t + 1\<rparr>);
             Some (s\<lparr>dyn_ltree := lt\<rparr>)
           } else do {
             let s = s\<lparr>matches := matches s + 1\<rparr>;
             let dist = dist - 1;
             code \<leftarrow> rd (length_code tb) (uint lc);
             t \<leftarrow> rd (dyn_ltree s) (uint code + LITERALS + 1);
             lt \<leftarrow> wr (dyn_ltree s) (uint code + LITERALS + 1) (t\<lparr>fc := fc t + 1\<rparr>);
             let s = s\<lparr>dyn_ltree := lt\<rparr>;
             dc \<leftarrow> d_code tb dist;
             t \<leftarrow> rd (dyn_dtree s) (uint dc);
             dt \<leftarrow> wr (dyn_dtree s) (uint dc) (t\<lparr>fc := fc t + 1\<rparr>);
             Some (s\<lparr>dyn_dtree := dt\<rparr>)
           });
     Some (s, sym_next s = sym_end s)
   }"

section \<open>Checksum engine: polynomial arithmetic\<close>

lemma mulx_alt: "mulx b = drop_bit 1 b XOR (if odd b then POLY else 0)"
  by (simp add: mulx_def and_one_eq mod_2_eq_odd)

lemma mulx_0 [simp]: "mulx 0 = 0"
  by (simp add: mulx_alt)

lemma mulx_xor: "mulx (a XOR b) = mulx a XOR mulx b"
  by (simp add: mulx_alt even_xor_iff ac_simps)

lemma mulx_pow_0 [simp]: "(mulx ^^ n) 0 = 0"
  by (induction n) simp_all

lemma mulx_pow_xor: "(mulx ^^ n) (a XOR b) = (mulx ^^ n) a XOR (mulx ^^ n) b"
  by (induction n) (simp_all add: mulx_xor)

lemma and_1_neq_0_iff: "(a AND 1 \<noteq> 0) = odd a" for a :: "'a::len word"
  by (simp add: and_one_eq mod_2_eq_odd)

lemma and_pow_neq_0_iff: "(a AND push_bit k 1 \<noteq> 0) = bit a k" for a :: "'a::len word"
  by (simp add: push_bit_of_1 and_exp_eq_0_iff_not_bit)

lemma and_pow_minus_1: "a AND (push_bit k 1 - 1) = take_bit k a" for a :: "'a::len word"
  by (simp add: push_bit_of_1 take_bit_eq_mask mask_eq_exp_minus_1)

lemma take_bit_Suc_zero_iff:
  "take_bit (Suc k) a = 0 \<longleftrightarrow> \<not> bit a k \<and> take_bit k a = 0" for a :: "'a::len word"
proof
  assume z: "take_bit (Suc k) a = 0"
  have "\<not> bit (take_bit (Suc k) a) n" for n
    by (simp only: z bit_0_eq) simp
  then have *: "\<not> bit a n" if "n < Suc k" for n
    using that by (simp add: bit_take_bit_iff)
  have "take_bit k a = 0"
    by (rule bit_eqI) (use * in \<open>simp add: bit_take_bit_iff\<close>)
  with * show "\<not> bit a k \<and> take_bit k a = 0" by simp
next
  assume h: "\<not> bit a k \<and> take_bit k a = 0"
  then have "\<not> bit (take_bit k a) n" for n by simp
  then have *: "\<not> bit a n" if "n < k" for n
    using that by (simp add: bit_take_bit_iff)
  show "take_bit (Suc k) a = 0"
  proof (rule bit_eqI)
    fix n
    show "bit (take_bit (Suc k) a) n = bit (0 :: 'a word) n"
      using * [of n] h by (cases "n = k") (auto simp add: bit_take_bit_iff less_Suc_eq)
  qed
qed

lemma mulp_aux_zero: "take_bit (Suc k) a = 0 \<Longrightarrow> mulp_aux a b k = 0"
proof (induction k arbitrary: b)
  case 0
  then have "\<not> bit a 0" by (metis take_bit_Suc_zero_iff)
  then show ?case by simp
next
  case (Suc k)
  then have "\<not> bit a (Suc k)" and "take_bit (Suc k) a = 0"
    by (metis take_bit_Suc_zero_iff)+
  then show ?case using Suc.IH by simp
qed

lemma multmodp_loop_correct:
  "k < 32 \<Longrightarrow> take_bit (Suc k) a \<noteq> 0 \<Longrightarrow>
   multmodp_loop a b (push_bit k 1) p = Some (p XOR mulp_aux a b k)"
proof (induction k arbitrary: b p)
  case 0
  then have "bit a 0" by (metis take_bit_Suc_zero_iff take_bit_0)
  then show ?case
    by (subst multmodp_loop.simps) (simp add: and_1_neq_0_iff bit_0)
next
  case (Suc k)
  define m :: u32 where "m = push_bit (Suc k) 1"
  have m1: "drop_bit 1 m = push_bit k 1"
    unfolding m_def using Suc.prems(1)
    by (intro bit_word_eqI) (auto simp add: bit_simps simp del: push_bit_Suc)
  have m2: "(a AND m \<noteq> 0) = bit a (Suc k)"
    unfolding m_def by (rule and_pow_neq_0_iff)
  have m3: "a AND (m - 1) = take_bit (Suc k) a"
    unfolding m_def by (rule and_pow_minus_1)
  have step: "multmodp_loop a b m p =
     (if bit a (Suc k)
      then (if take_bit (Suc k) a = 0 then Some (p XOR b)
            else multmodp_loop a (mulx b) (push_bit k 1) (p XOR b))
      else multmodp_loop a (mulx b) (push_bit k 1) p)"
    by (subst multmodp_loop.simps) (simp only: m1 m2 m3 Let_def)
  show ?case
  proof (cases "bit a (Suc k)")
    case True
    show ?thesis
    proof (cases "take_bit (Suc k) a = 0")
      case z: True
      then have "mulp_aux a (mulx b) k = 0" by (rule mulp_aux_zero)
      then show ?thesis using True z
        unfolding m_def [symmetric] step by simp
    next
      case nz: False
      have "multmodp_loop a (mulx b) (push_bit k 1) (p XOR b) =
            Some ((p XOR b) XOR mulp_aux a (mulx b) k)"
        using Suc.IH [of "mulx b" "p XOR b"] Suc.prems nz by simp
      then show ?thesis using True nz
        unfolding m_def [symmetric] step by (simp add: ac_simps)
    qed
  next
    case False
    then have nz: "take_bit (Suc k) a \<noteq> 0"
      using Suc.prems(2) by (metis take_bit_Suc_zero_iff)
    have "multmodp_loop a (mulx b) (push_bit k 1) p = Some (p XOR mulp_aux a (mulx b) k)"
      using Suc.IH [of "mulx b" p] Suc.prems nz by simp
    then show ?thesis using False
      unfolding m_def [symmetric] step by simp
  qed
qed

lemma multmodp_mulp: "a \<noteq> 0 \<Longrightarrow> multmodp a b = Some (mulp a b)"
proof -
  assume "a \<noteq> 0"
  moreover have "take_bit 32 a = a" using take_bit_length_eq [of a] by simp
  ultimately have "take_bit (Suc 31) a \<noteq> 0" by (simp)
  from multmodp_loop_correct [OF _ this, of b 0] show ?thesis
    by (simp add: multmodp_def mulp_def)
qed


lemma multmodp_loop_Some_nonzero: "multmodp_loop a b m p = Some y \<Longrightarrow> a \<noteq> 0"
proof (rule multmodp_loop.raw_induct [where P = "\<lambda>a b m p y. a \<noteq> 0"])
  fix loop :: "u32 \<Rightarrow> u32 \<Rightarrow> u32 \<Rightarrow> u32 \<Rightarrow> u32 option" and a b m p y
  assume IH: "\<And>a b m p y. loop a b m p = Some y \<Longrightarrow> a \<noteq> 0"
    and step: "(if a AND m \<noteq> 0
      then (let p' = p XOR b
            in if a AND (m - 1) = 0 then Some p'
               else loop a (mulx b) (drop_bit 1 m) p')
      else loop a (mulx b) (drop_bit 1 m) p) = Some y"
  show "a \<noteq> 0"
  proof
    assume "a = 0"
    with step have "loop 0 (mulx b) (drop_bit 1 m) p = Some y" by simp
    from IH [OF this] show False by simp
  qed
qed

lemma multmodp_zero: "multmodp 0 b = None"
proof (cases "multmodp 0 b")
  case None
  then show ?thesis .
next
  case (Some y)
  then show ?thesis
    using multmodp_loop_Some_nonzero [of 0 b "push_bit 31 1" 0 y] by (simp add: multmodp_def)
qed

lemma mulp_aux_0 [simp]: "mulp_aux a 0 k = 0"
  by (induction k) simp_all

lemma mulp_aux_xor: "mulp_aux a (b XOR c) k = mulp_aux a b k XOR mulp_aux a c k"
  by (induction k arbitrary: b c) (simp_all add: mulx_xor ac_simps)

lemma mulp_aux_mulx: "mulp_aux a (mulx b) k = mulx (mulp_aux a b k)"
  by (induction k arbitrary: b) (simp_all add: mulx_xor)

lemma mulp_0_right [simp]: "mulp a 0 = 0"
  by (simp add: mulp_def)

lemma mulp_xor: "mulp a (b XOR c) = mulp a b XOR mulp a c"
  by (simp add: mulp_def mulp_aux_xor)

lemma mulp_mulx: "mulp a (mulx b) = mulx (mulp a b)"
  by (simp add: mulp_def mulp_aux_mulx)

lemma mulp_mulx_pow: "mulp a ((mulx ^^ n) b) = (mulx ^^ n) (mulp a b)"
  by (induction n) (simp_all add: mulp_mulx)

lemma mulp_mulp_aux: "mulp a (mulp_aux b c k) = mulp_aux b (mulp a c) k"
  by (induction k arbitrary: c) (simp_all add: mulp_xor mulp_mulx)

lemma mulp_left_commute: "mulp a (mulp b c) = mulp b (mulp a c)"
  by (simp add: mulp_def [of b] mulp_mulp_aux)

lemma mulx_pow2: "0 < j \<Longrightarrow> j < 32 \<Longrightarrow> mulx (2 ^ j) = 2 ^ (j - 1)"
  unfolding mulx_alt
  by (intro bit_word_eqI) (auto simp add: bit_simps)

lemma mulp_aux_one:
  "k \<le> j \<Longrightarrow> j < 32 \<Longrightarrow> mulp_aux a (2 ^ j) k = push_bit (j - k) (take_bit (Suc k) a)"
proof (induction k arbitrary: j)
  case 0
  then show ?case
    by (intro bit_word_eqI) (auto simp add: bit_simps bit_0)
next
  case (Suc k)
  have "mulp_aux a (mulx (2 ^ j)) k = push_bit (j - 1 - k) (take_bit (Suc k) a)"
    using Suc.prems Suc.IH [of "j - 1"] by (simp add: mulx_pow2)
  moreover have "(if bit a (Suc k) then 2 ^ j else 0) XOR
        push_bit (j - Suc k) (take_bit (Suc k) a) =
        push_bit (j - Suc k) (take_bit (Suc (Suc k)) a)"
  proof (intro bit_word_eqI)
    fix n assume "n < LENGTH(32)"
    have "n - (j - Suc k) = Suc k \<longleftrightarrow> n = j" if "j - Suc k \<le> n"
      using that Suc.prems by auto
    then show "bit ((if bit a (Suc k) then 2 ^ j else 0) XOR
        push_bit (j - Suc k) (take_bit (Suc k) a)) n =
        bit (push_bit (j - Suc k) (take_bit (Suc (Suc k)) a)) n"
      using Suc.prems
      by (auto simp add: bit_simps less_Suc_eq)
  qed
  ultimately show ?case using Suc.prems
    by (simp)
qed

lemma mulp_X1: "mulp a X1 = a"
proof -
  have "mulp_aux a (2 ^ 31) 31 = push_bit (31 - 31) (take_bit (Suc 31) a)"
    by (rule mulp_aux_one) simp_all
  moreover have "take_bit (Suc 31) a = a"
    using take_bit_length_eq [of a] by (simp)
  ultimately show ?thesis
    by (simp add: mulp_def X1_def)
qed

lemma mulp_commute: "mulp a b = mulp b a"
  using mulp_left_commute [of a b X1] by (simp add: mulp_X1)

lemma mulp_xpow: "mulp ((mulx ^^ n) X1) c = (mulx ^^ n) c"
  by (simp add: mulp_commute [of _ c] mulp_mulx_pow mulp_X1)


lemma x2n_table_length: "length x2n_table = 32"
  by (simp add: x2n_table_def)

lemma x2n_square_0:
  "mulp 0x40000000 0x40000000 = 0x20000000"
  "mulp 0x20000000 0x20000000 = 0x08000000"
  "mulp 0x08000000 0x08000000 = 0x00800000"
  "mulp 0x00800000 0x00800000 = 0x00008000"
  "mulp 0x00008000 0x00008000 = 0xedb88320"
  "mulp 0xedb88320 0xedb88320 = 0xb1e6b092"
  "mulp 0xb1e6b092 0xb1e6b092 = 0xa06a2517"
  "mulp 0xa06a2517 0xa06a2517 = 0xed627dae"
  by code_simp+

lemma x2n_square_1:
  "mulp 0xed627dae 0xed627dae = 0x88d14467"
  "mulp 0x88d14467 0x88d14467 = 0xd7bbfe6a"
  "mulp 0xd7bbfe6a 0xd7bbfe6a = 0xec447f11"
  "mulp 0xec447f11 0xec447f11 = 0x8e7ea170"
  "mulp 0x8e7ea170 0x8e7ea170 = 0x6427800e"
  "mulp 0x6427800e 0x6427800e = 0x4d47bae0"
  "mulp 0x4d47bae0 0x4d47bae0 = 0x09fe548f"
  "mulp 0x09fe548f 0x09fe548f = 0x83852d0f"
  by code_simp+

lemma x2n_square_2:
  "mulp 0x83852d0f 0x83852d0f = 0x30362f1a"
  "mulp 0x30362f1a 0x30362f1a = 0x7b5a9cc3"
  "mulp 0x7b5a9cc3 0x7b5a9cc3 = 0x31fec169"
  "mulp 0x31fec169 0x31fec169 = 0x9fec022a"
  "mulp 0x9fec022a 0x9fec022a = 0x6c8dedc4"
  "mulp 0x6c8dedc4 0x6c8dedc4 = 0x15d6874d"
  "mulp 0x15d6874d 0x15d6874d = 0x5fde7a4e"
  "mulp 0x5fde7a4e 0x5fde7a4e = 0xbad90e37"
  by code_simp+

lemma x2n_square_3:
  "mulp 0xbad90e37 0xbad90e37 = 0x2e4e5eef"
  "mulp 0x2e4e5eef 0x2e4e5eef = 0x4eaba214"
  "mulp 0x4eaba214 0x4eaba214 = 0xa8a472c0"
  "mulp 0xa8a472c0 0xa8a472c0 = 0x429a969e"
  "mulp 0x429a969e 0x429a969e = 0x148d302a"
  "mulp 0x148d302a 0x148d302a = 0xc40ba6d0"
  "mulp 0xc40ba6d0 0xc40ba6d0 = 0xc4e22c3c"
  "mulp 0xc4e22c3c 0xc4e22c3c = 0x40000000"
  by code_simp+

lemma x2n_table_square: "map (\<lambda>t. mulp t t) x2n_table = rotate1 x2n_table"
  by (simp add: x2n_table_def x2n_square_0 x2n_square_1 x2n_square_2 x2n_square_3)

lemma x2n_table_nonzero: "0 \<notin> set x2n_table"
  by (simp add: x2n_table_def)

lemma x2n_table_0: "x2n_table ! 0 = mulx X1"
  by (simp add: x2n_table_def X1_def mulx_def POLY_def)


lemma funpow_app_add: "(f ^^ m) ((f ^^ n) x) = (f ^^ (m + n)) x"
  by (simp add: funpow_add)

lemma xor_eq_0_word: "a XOR b = 0 \<longleftrightarrow> a = b" for a b :: "'a::len word"
proof
  assume "a XOR b = 0"
  then have "(a XOR b) XOR b = b" by simp
  then show "a = b" by (simp add: xor.assoc)
qed simp

lemma x2n_table_Suc:
  assumes "k < 32"
  shows "x2n_table ! (Suc k mod 32) = mulp (x2n_table ! k) (x2n_table ! k)"
proof -
  have "map (\<lambda>t. mulp t t) x2n_table ! k = rotate1 x2n_table ! k"
    by (simp only: x2n_table_square)
  then show ?thesis using assms
    by (simp add: nth_rotate1 x2n_table_length)
qed

lemma x2n_table_nth: "k < 32 \<Longrightarrow> x2n_table ! k = (mulx ^^ (2 ^ k)) X1"
proof (induction k)
  case 0
  then show ?case by (simp add: x2n_table_0)
next
  case (Suc k)
  then have "x2n_table ! Suc k = mulp (x2n_table ! k) (x2n_table ! k)"
    using x2n_table_Suc [of k] by simp
  also have "\<dots> = (mulx ^^ (2 ^ k)) ((mulx ^^ (2 ^ k)) X1)"
    using Suc by (simp add: mulp_xpow)
  also have "\<dots> = (mulx ^^ (2 ^ Suc k)) X1"
    by (simp add: funpow_app_add mult_2)
  finally show ?case .
qed

lemma mulx_pow_2_32: "(mulx ^^ (2 ^ 32)) c = mulx c"
proof -
  have "x2n_table ! 0 = mulp (x2n_table ! 31) (x2n_table ! 31)"
    using x2n_table_Suc [of 31] by simp
  also have "\<dots> = (mulx ^^ (2 ^ 31)) ((mulx ^^ (2 ^ 31)) X1)"
    by (simp add: x2n_table_nth mulp_xpow)
  also have "\<dots> = (mulx ^^ (2 ^ 32)) X1"
    by (simp add: funpow_app_add)
  finally have *: "(mulx ^^ (2 ^ 32)) X1 = (mulx ^^ 1) X1"
    by (simp add: x2n_table_0)
  have "(mulx ^^ (2 ^ 32)) c = mulp ((mulx ^^ (2 ^ 32)) X1) c"
    by (simp only: mulp_xpow)
  also have "\<dots> = (mulx ^^ 1) c"
    by (simp only: * mulp_xpow)
  finally show ?thesis by simp
qed

lemma mulx_pow_period: "(mulx ^^ (2 ^ (k mod 32))) c = (mulx ^^ (2 ^ k)) c"
proof (induction k rule: less_induct)
  case (less k)
  show ?case
  proof (cases "k < 32")
    case True
    then show ?thesis by simp
  next
    case False
    define j where "j = k - 32"
    have k: "k = 32 + j" using False by (simp add: j_def)
    have "mulx ^^ (2 ^ 32) = mulx" by (rule ext) (rule mulx_pow_2_32)
    then have "(mulx ^^ (2 ^ 32)) ^^ (2 ^ j) = mulx ^^ (2 ^ j)" by simp
    then have "mulx ^^ (2 ^ k) = mulx ^^ (2 ^ j)"
      by (simp only: k power_add funpow_mult)
    moreover have "k mod 32 = j mod 32" by (simp add: k)
    moreover have "j < k" by (simp add: k)
    ultimately show ?thesis using less.IH [of j] by simp
  qed
qed

lemma mulx_eq_0_iff [simp]: "mulx b = 0 \<longleftrightarrow> b = 0"
proof
  assume z: "mulx b = 0"
  show "b = 0"
  proof (cases "odd b")
    case True
    with z have "drop_bit 1 b = POLY" by (simp add: mulx_alt xor_eq_0_word)
    then have "bit (drop_bit 1 b) 31 = bit POLY 31" by simp
    then have "bit b 32" by (simp add: bit_simps POLY_def)
    then show ?thesis by (auto dest: bit_imp_le_length)
  next
    case False
    with z have "drop_bit 1 b = 0" by (simp add: mulx_alt)
    then have "\<not> bit (drop_bit 1 b) n" for n by simp
    then have "\<not> bit b (Suc n)" for n by (simp add: bit_simps)
    moreover have "\<not> bit b 0" using False by (simp add: bit_0)
    ultimately have "\<not> bit b n" for n by (cases n) simp_all
    then show ?thesis by (intro bit_eqI) simp
  qed
qed simp

lemma mulx_pow_eq_0_iff [simp]: "(mulx ^^ n) b = 0 \<longleftrightarrow> b = 0"
  by (induction n) simp_all

lemma X1_nonzero [simp]: "X1 \<noteq> 0"
  by (simp add: X1_def)


lemma unat_and_31: "unat ((of_nat kk :: u32) AND 31) = kk mod 32"
proof -
  have "(of_nat kk :: u32) AND 31 = take_bit 5 (of_nat kk)"
    by (simp add: take_bit_eq_mask mask_eq_exp_minus_1)
  then show ?thesis
    by (simp add: unat_mod unat_of_nat take_bit_eq_mod mod_mod_cancel)
qed


lemma x2nmodp_loop_correct:
  "\<not> bit n 63 \<Longrightarrow>
   x2nmodp_loop n (of_nat kk) p = Some ((mulx ^^ (unat n * 2 ^ kk)) p)"
proof (induction "unat n" arbitrary: n kk p rule: less_induct)
  case less
  show ?case
  proof (cases "n = 0")
    case True
    then show ?thesis by (subst x2nmodp_loop.simps) simp
  next
    case False
    define n' where "n' = signed_drop_bit 1 n"
    have n': "n' = drop_bit 1 n"
      unfolding n'_def using less.prems
      by (intro bit_word_eqI) (auto simp add: bit_simps dest: bit_imp_le_length)
    have un': "unat n' = unat n div 2"
      unfolding n' by (simp only: unat_drop_bit_eq) (simp add: drop_bit_eq_div)
    have "unat n \<noteq> 0" using False by (simp add: unat_eq_0)
    then have lt: "unat n' < unat n" by (simp add: un')
    have nb: "\<not> bit n' 63"
      using bit_imp_le_length [of n 64] by (auto simp add: n' bit_simps)
    have k': "(of_nat kk :: u32) + 1 = of_nat (Suc kk)" by simp
    note IH = less.hyps [OF lt nb, of "Suc kk"]
    have odd_n: "(n AND 1 \<noteq> 0) = odd (unat n)"
    proof -
      have "bit (unat n) 0 = bit n 0" by (simp add: bit_unsigned_iff)
      then show ?thesis by (simp add: and_1_neq_0_iff bit_0)
    qed
    show ?thesis
    proof (cases "odd (unat n)")
      case True
      have un: "unat n = 2 * unat n' + 1"
        using True by (simp add: un')
      have "x2n_table ! (kk mod 32) \<in> set x2n_table"
        by (rule nth_mem) (simp add: x2n_table_length)
      with x2n_table_nonzero have tk: "x2n_table ! (kk mod 32) \<noteq> 0"
        by metis
      have "multmodp (x2n_table ! (kk mod 32)) p = Some (mulp (x2n_table ! (kk mod 32)) p)"
        using tk by (rule multmodp_mulp)
      also have "mulp (x2n_table ! (kk mod 32)) p = (mulx ^^ (2 ^ kk)) p"
        by (simp add: x2n_table_nth mulp_xpow mulx_pow_period)
      finally have mm: "multmodp (x2n_table ! (kk mod 32)) p = Some ((mulx ^^ (2 ^ kk)) p)" .
      have "x2nmodp_loop n (of_nat kk) p = x2nmodp_loop n' (of_nat (Suc kk)) ((mulx ^^ (2 ^ kk)) p)"
        by (subst x2nmodp_loop.simps)
          (simp only: False odd_n True unat_and_31 mm k' n'_def [symmetric] if_True if_False
            not_False_eq_True option.case)
      also have "\<dots> = Some ((mulx ^^ (unat n' * 2 ^ Suc kk)) ((mulx ^^ (2 ^ kk)) p))"
        by (rule IH)
      also have "\<dots> = Some ((mulx ^^ (unat n * 2 ^ kk)) p)"
        by (simp add: funpow_app_add un algebra_simps)
      finally show ?thesis .
    next
      case ev: False
      have un: "unat n = 2 * unat n'"
        using ev by (simp add: un')
      have "x2nmodp_loop n (of_nat kk) p = x2nmodp_loop n' (of_nat (Suc kk)) p"
        by (subst x2nmodp_loop.simps)
          (simp only: False odd_n ev k' n'_def [symmetric] if_True if_False not_False_eq_True)
      also have "\<dots> = Some ((mulx ^^ (unat n' * 2 ^ Suc kk)) p)"
        by (rule IH)
      also have "\<dots> = Some ((mulx ^^ (unat n * 2 ^ kk)) p)"
        by (simp add: un algebra_simps)
      finally show ?thesis .
    qed
  qed
qed

lemma x2nmodp_correct:
  "\<not> bit n 63 \<Longrightarrow> x2nmodp n (of_nat kk) = Some ((mulx ^^ (unat n * 2 ^ kk)) X1)"
  by (simp add: x2nmodp_def x2nmodp_loop_correct X1_def)


lemma x2nmodp_loop_Some_nonneg: "x2nmodp_loop n k p = Some y \<Longrightarrow> \<not> bit n 63"
proof (rule x2nmodp_loop.raw_induct [where P = "\<lambda>n k p y. \<not> bit n 63"])
  fix loop :: "u64 \<Rightarrow> u32 \<Rightarrow> u32 \<Rightarrow> u32 option" and n :: u64 and k p y :: u32
  assume IH: "\<And>n k p y. loop n k p = Some y \<Longrightarrow> \<not> bit n 63"
    and step: "(if n \<noteq> 0
      then (if n AND 1 \<noteq> 0
            then (case multmodp (x2n_table ! unat (k AND 31)) p of
                    None \<Rightarrow> None
                  | Some p' \<Rightarrow> loop (signed_drop_bit 1 n) (k + 1) p')
            else loop (signed_drop_bit 1 n) (k + 1) p)
      else Some p) = Some y"
  show "\<not> bit n 63"
  proof
    assume neg: "bit n 63"
    then have "n \<noteq> 0" by auto
    with step obtain k' p' where "loop (signed_drop_bit 1 n) k' p' = Some y"
      by (auto split: if_splits option.splits)
    from IH [OF this] have "\<not> bit (signed_drop_bit 1 n) 63" .
    with neg show False by (simp add: bit_simps)
  qed
qed

lemma x2nmodp_negative: "bit n 63 \<Longrightarrow> x2nmodp n k = None"
  using x2nmodp_loop_Some_nonneg [of n k "push_bit 31 1"]
  by (cases "x2nmodp n k") (auto simp add: x2nmodp_def)

lemma and_ffffffff [simp]: "c AND 0xffffffff = c" for c :: u32
proof -
  have "(0xffffffff :: u32) = - 1" by simp
  then show ?thesis by (simp only: and.right_neutral word_bw_comms bit.conj_one_right)
qed

lemma xor_ffffffff: "c XOR 0xffffffff = NOT c" for c :: u32
proof -
  have "(0xffffffff :: u32) = - 1" by simp
  then show ?thesis by (simp only: bit.xor_one_right)
qed

lemma crc32_combine64_correct:
  assumes "\<not> bit len2 63"
  shows "crc32_combine64 crc1 crc2 len2 = Some ((mulx ^^ (8 * unat len2)) crc1 XOR crc2)"
proof -
  have "x2nmodp len2 (of_nat 3) = Some ((mulx ^^ (unat len2 * 2 ^ 3)) X1)"
    using assms by (rule x2nmodp_correct)
  then have x: "x2nmodp len2 3 = Some ((mulx ^^ (8 * unat len2)) X1)"
    by (simp add: mult.commute)
  have "multmodp ((mulx ^^ (8 * unat len2)) X1) crc1 =
        Some (mulp ((mulx ^^ (8 * unat len2)) X1) crc1)"
    by (rule multmodp_mulp) simp
  then show ?thesis
    by (simp add: crc32_combine64_def x mulp_xpow)
qed


section \<open>Checksum engine: the byte-wise loop\<close>

lemma mulx_even: "even b \<Longrightarrow> mulx b = drop_bit 1 b"
  by (simp add: mulx_alt)

lemma mulx_pow_low_zero:
  "take_bit n y = 0 \<Longrightarrow> (mulx ^^ n) y = drop_bit n y"
proof (induction n)
  case 0
  then show ?case by simp
next
  case (Suc n)
  then have nb: "\<not> bit y n" and tz: "take_bit n y = 0"
    by (metis take_bit_Suc_zero_iff)+
  have "even (drop_bit n y)"
    using nb by (simp add: bit_iff_odd_drop_bit)
  then have "mulx (drop_bit n y) = drop_bit 1 (drop_bit n y)"
    by (rule mulx_even)
  then show ?case using Suc.IH [OF tz] by simp
qed

lemma mulx_pow_split:
  "(mulx ^^ n) y = drop_bit n y XOR (mulx ^^ n) (take_bit n y)"
proof -
  define h where "h = y AND NOT (mask n)"
  have y: "y = h XOR take_bit n y"
    unfolding h_def by (intro bit_word_eqI) (auto simp add: bit_simps)
  have "take_bit n h = 0"
    unfolding h_def by (intro bit_word_eqI) (auto simp add: bit_simps)
  then have "(mulx ^^ n) h = drop_bit n h" by (rule mulx_pow_low_zero)
  also have "\<dots> = drop_bit n y"
    unfolding h_def by (intro bit_word_eqI) (auto simp add: bit_simps dest: bit_imp_le_length)
  finally have "(mulx ^^ n) (h XOR take_bit n y) = drop_bit n y XOR (mulx ^^ n) (take_bit n y)"
    by (simp add: mulx_pow_xor)
  with y show ?thesis by simp
qed

lemma and_0xff: "d AND 0xff = take_bit 8 d" for d :: u32
  by (simp add: take_bit_eq_mask mask_eq_exp_minus_1)

lemma crc_table_step: "drop_bit 8 d XOR crc_table (d AND 0xff) = (mulx ^^ 8) d"
  unfolding crc_table_def and_0xff by (rule mulx_pow_split [symmetric])

lemma crc_byte_eq: "crc_byte crc b = (mulx ^^ 8) (crc XOR ucast b)"
proof -
  have "drop_bit 8 (crc XOR ucast b) = drop_bit 8 crc"
    by (intro bit_word_eqI) (auto simp add: bit_simps dest: bit_imp_le_length)
  then show ?thesis
    unfolding crc_byte_def using crc_table_step [of "crc XOR ucast b"] by simp
qed

lemma crc_word_eq: "crc_word d = (mulx ^^ 32) d"
proof -
  have "(\<lambda>d. drop_bit 8 d XOR crc_table (d AND 0xff)) = mulx ^^ 8"
    by (rule ext) (rule crc_table_step)
  then have "crc_word d = ((mulx ^^ 8) ^^ 4) d"
    by (simp add: crc_word_def W_def)
  then show ?thesis by (simp only: funpow_mult) simp
qed

lemma crc_bytes_Nil [simp]: "crc_bytes crc [] = crc"
  by (simp add: crc_bytes_def)

lemma crc_bytes_Cons [simp]: "crc_bytes crc (b # bs) = crc_bytes (crc_byte crc b) bs"
  by (simp add: crc_bytes_def)

lemma crc_bytes_append: "crc_bytes crc (xs @ ys) = crc_bytes (crc_bytes crc xs) ys"
  by (simp add: crc_bytes_def)

lemma crc_bytes_linear:
  "crc_bytes crc bs = (mulx ^^ (8 * length bs)) crc XOR crc_bytes 0 bs"
proof (induction bs arbitrary: crc)
  case Nil
  then show ?case by simp
next
  case (Cons b bs)
  have "crc_bytes crc (b # bs) =
        (mulx ^^ (8 * length bs)) ((mulx ^^ 8) (crc XOR ucast b)) XOR crc_bytes 0 bs"
    using Cons.IH [of "crc_byte crc b"] by (simp add: crc_byte_eq)
  also have "\<dots> = (mulx ^^ (8 * length (b # bs))) crc XOR
        ((mulx ^^ (8 * length bs)) ((mulx ^^ 8) (ucast b)) XOR crc_bytes 0 bs)"
    by (simp add: mulx_pow_xor funpow_app_add algebra_simps xor.assoc)
  also have "(mulx ^^ (8 * length bs)) ((mulx ^^ 8) (ucast b)) XOR crc_bytes 0 bs =
        crc_bytes 0 (b # bs)"
    using Cons.IH [of "crc_byte 0 b"] by (simp add: crc_byte_eq)
  finally show ?case .
qed

lemma bytes_at_0 [simp]: "bytes_at mem buf 0 = []"
  by (simp add: bytes_at_def)

lemma bytes_at_Suc: "bytes_at mem buf (Suc len) = mem buf # bytes_at mem (Suc buf) len"
proof -
  have "[buf..<buf + Suc len] = buf # [Suc buf..<Suc buf + len]"
    by (simp add: upt_rec [of buf])
  then show ?thesis by (simp only: bytes_at_def list.map)
qed

lemma bytes_at_add: "bytes_at mem buf (m + n) = bytes_at mem buf m @ bytes_at mem (buf + m) n"
proof -
  have "[buf..<(buf + m) + n] = [buf..<buf + m] @ [buf + m..<buf + m + n]"
    by (rule upt_add_eq_append) simp
  then show ?thesis by (simp only: bytes_at_def map_append add.assoc)
qed

lemma length_bytes_at [simp]: "length (bytes_at mem buf len) = len"
  by (simp add: bytes_at_def)

lemma tail_loop_eq: "tail_loop mem crc buf len = crc_bytes crc (bytes_at mem buf len)"
  by (induction len arbitrary: crc buf) (simp_all add: bytes_at_Suc)

lemma bytes_at_8:
  "bytes_at mem buf 8 = [mem buf, mem (buf + 1), mem (buf + 2), mem (buf + 3),
     mem (buf + 4), mem (buf + 5), mem (buf + 6), mem (buf + 7)]"
  by (simp add: eval_nat_numeral bytes_at_Suc)

lemma tail8_loop_eq:
  "(case tail8_loop mem crc buf len of (c, b, l) \<Rightarrow> crc_bytes c (bytes_at mem b l)) =
   crc_bytes crc (bytes_at mem buf len)"
proof (induction mem crc buf len rule: tail8_loop.induct)
  case (1 mem crc buf len)
  show ?case
  proof (cases "len \<ge> 8")
    case True
    then have "bytes_at mem buf len = bytes_at mem buf 8 @ bytes_at mem (buf + 8) (len - 8)"
      using bytes_at_add [of mem buf 8 "len - 8"] by simp
    then show ?thesis
      using True 1 [OF True refl refl refl refl refl refl refl refl]
      by (subst tail8_loop.simps) (simp add: crc_bytes_append bytes_at_8 Let_def)
  next
    case False
    then show ?thesis by (subst tail8_loop.simps) simp
  qed
qed

lemma align_loop_eq:
  "(case align_loop mem crc buf len of (c, b, l) \<Rightarrow>
      crc_bytes c (bytes_at mem b l) = crc_bytes crc (bytes_at mem buf len) \<and>
      l \<le> len \<and> len - l \<le> (W - buf mod W) mod W \<and> b + l = buf + len)"
proof (induction mem crc buf len rule: align_loop.induct)
  case (1 mem crc buf len)
  show ?case
  proof (cases "len \<noteq> 0 \<and> buf mod W \<noteq> 0")
    case True
    then obtain len' where len: "len = Suc len'" by (cases len) auto
    obtain c b l where r: "align_loop mem (crc_byte crc (mem buf)) (buf + 1) (len - 1) = (c, b, l)"
      by (cases "align_loop mem (crc_byte crc (mem buf)) (buf + 1) (len - 1)")
    from 1 [OF True] r
    have IH: "crc_bytes c (bytes_at mem b l) =
          crc_bytes (crc_byte crc (mem buf)) (bytes_at mem (buf + 1) (len - 1))"
       "l \<le> len - 1" "len - 1 - l \<le> (W - (buf + 1) mod W) mod W" "b + l = buf + 1 + (len - 1)"
      by simp_all
    have rm: "buf mod 4 = 1 \<or> buf mod 4 = 2 \<or> buf mod 4 = 3"
      using True by (simp add: W_def) linarith
    have s: "(buf + 1) mod 4 = (buf mod 4 + 1) mod 4"
      by (simp add: mod_simps)
    have "len - l \<le> (W - buf mod W) mod W"
      using IH(2,3) rm unfolding W_def len s by auto
    moreover have "align_loop mem crc buf len =
        align_loop mem (crc_byte crc (mem buf)) (buf + 1) (len - 1)"
      using True by (subst align_loop.simps) simp
    then have "align_loop mem crc buf len = (c, b, l)"
      using r by (rule trans)
    ultimately show ?thesis
      using IH by (simp add: len bytes_at_Suc)
  next
    case False
    then show ?thesis by (subst align_loop.simps) auto
  qed
qed

lemma mulx_pow_push: "(mulx ^^ n) (push_bit n z) = take_bit (32 - n) z"
proof -
  have "take_bit n (push_bit n z) = 0"
    by (intro bit_word_eqI) (auto simp add: bit_simps)
  then have "(mulx ^^ n) (push_bit n z) = drop_bit n (push_bit n z)"
    by (rule mulx_pow_low_zero)
  also have "\<dots> = take_bit (32 - n) z"
    by (intro bit_word_eqI) (auto simp add: bit_simps)
  finally show ?thesis .
qed

lemma crc_byte_push:
  "(mulx ^^ 8) (c XOR (ucast b XOR push_bit 8 r)) = crc_byte c b XOR take_bit 24 r"
  using mulx_pow_push [of 8 r]
  by (simp add: crc_byte_eq mulx_pow_xor xor.assoc [symmetric])

lemma take_bit_ucast_push:
  "8 \<le> n \<Longrightarrow> take_bit n (ucast (b :: u8) XOR push_bit 8 r :: u32) =
     ucast b XOR push_bit 8 (take_bit (n - 8) r)"
  by (intro bit_word_eqI) (auto simp add: bit_simps dest: bit_imp_le_length)

lemma take_bit_ucast_u8: "8 \<le> n \<Longrightarrow> take_bit n (ucast (b :: u8) :: u32) = ucast b"
  by (intro bit_word_eqI) (auto simp add: bit_simps dest: bit_imp_le_length)

lemma load_word_little:
  "load_word True mem a =
     ucast (mem a) XOR push_bit 8 (ucast (mem (a + 1)) XOR
       push_bit 8 (ucast (mem (a + 2)) XOR push_bit 8 (ucast (mem (a + 3)))))"
  unfolding load_word_def
  by (intro bit_word_eqI) (auto simp add: bit_simps dest: bit_imp_le_length)

lemma bytes_at_4:
  "bytes_at mem a 4 = [mem a, mem (a + 1), mem (a + 2), mem (a + 3)]"
  by (simp add: eval_nat_numeral bytes_at_Suc)

lemma crc_word_bytes:
  "crc_word (c XOR load_word True mem a) = crc_bytes c (bytes_at mem a 4)"
proof -
  define b0 b1 b2 b3 where "b0 = mem a" and "b1 = mem (a + 1)" and "b2 = mem (a + 2)"
    and "b3 = mem (a + 3)"
  define r3 :: u32 where "r3 = ucast b3"
  define r2 :: u32 where "r2 = ucast b2 XOR push_bit 8 r3"
  define r1 :: u32 where "r1 = ucast b1 XOR push_bit 8 r2"
  define c1 c2 c3 where "c1 = crc_byte c b0" and "c2 = crc_byte c1 b1" and "c3 = crc_byte c2 b2"
  have t3: "take_bit 8 r3 = r3"
    unfolding r3_def by (rule take_bit_ucast_u8) simp
  have t2: "take_bit 16 r2 = r2"
    unfolding r2_def using take_bit_ucast_push [of 16 b2 r3] by (simp add: t3)
  have t1: "take_bit 24 r1 = r1"
    unfolding r1_def using take_bit_ucast_push [of 24 b1 r2] by (simp add: t2)
  have t2': "take_bit 24 r2 = r2"
    unfolding r2_def using take_bit_ucast_push [of 24 b2 r3] take_bit_ucast_u8 [of 16 b3]
    by (simp add: r3_def)
  have t3': "take_bit 24 r3 = r3"
    unfolding r3_def by (rule take_bit_ucast_u8) simp
  have w: "load_word True mem a = ucast b0 XOR push_bit 8 r1"
    unfolding load_word_little r1_def r2_def r3_def b0_def b1_def b2_def b3_def ..
  have s1: "(mulx ^^ 8) (c XOR load_word True mem a) = c1 XOR r1"
    unfolding w c1_def by (simp only: crc_byte_push t1)
  have s2: "(mulx ^^ 8) (c1 XOR r1) = c2 XOR r2"
    unfolding r1_def c2_def by (simp only: crc_byte_push t2')
  have s3: "(mulx ^^ 8) (c2 XOR r2) = c3 XOR r3"
    unfolding r2_def c3_def by (simp only: crc_byte_push t3')
  have s4: "(mulx ^^ 8) (c3 XOR r3) = crc_byte c3 b3"
    unfolding r3_def by (simp only: crc_byte_eq)
  have "crc_word (c XOR load_word True mem a) =
        (mulx ^^ 8) ((mulx ^^ 8) ((mulx ^^ 8) ((mulx ^^ 8) (c XOR load_word True mem a))))"
    by (simp add: crc_word_eq funpow_app_add)
  also have "\<dots> = crc_byte c3 b3"
    by (simp only: s1 s2 s3 s4)
  also have "\<dots> = crc_bytes c (bytes_at mem a 4)"
    by (simp add: bytes_at_4 c1_def c2_def c3_def b0_def b1_def b2_def b3_def)
  finally show ?thesis .
qed

lemma length_words_at [simp]: "length (words_at little mem a n) = n"
  by (simp add: words_at_def)

lemma words_at_Suc:
  "words_at little mem a (Suc n) = load_word little mem a # words_at little mem (a + W) n"
proof -
  have "[0..<Suc n] = 0 # map Suc [0..<n]"
    by (simp add: upt_conv_Cons map_Suc_upt del: upt_Suc)
  then show ?thesis
    by (simp add: words_at_def comp_def add.assoc del: upt_Suc)
qed

lemma crc_words_bytes:
  "crc_words c (words_at True mem a n) = crc_bytes c (bytes_at mem a (n * W))"
proof (induction n arbitrary: c a)
  case 0
  then show ?case by (simp add: crc_words_def words_at_def)
next
  case (Suc n)
  have "bytes_at mem a (Suc n * W) = bytes_at mem a 4 @ bytes_at mem (a + W) (n * W)"
    using bytes_at_add [of mem a 4 "n * W"] by (simp add: W_def)
  then show ?case
    using Suc.IH [of "crc_word (c XOR load_word True mem a)" "a + W"]
    by (simp add: words_at_Suc crc_words_def crc_bytes_append crc_word_bytes)
qed

section \<open>Checksum engine: the braided loop\<close>

lemma word_bytes_xor:
  "w = take_bit 8 w XOR push_bit 8 (take_bit 8 (drop_bit 8 w)) XOR
       push_bit 16 (take_bit 8 (drop_bit 16 w)) XOR push_bit 24 (take_bit 8 (drop_bit 24 w))"
  for w :: u32
  by (intro bit_word_eqI) (auto simp add: bit_simps dest: bit_imp_le_length)

lemma byte_contrib:
  assumes "k < 4"
  shows "crc_braid_table k (drop_bit (8 * k) w AND 0xff) =
         (mulx ^^ 160) (push_bit (8 * k) (take_bit 8 (drop_bit (8 * k) w)))"
proof -
  define z where "z = take_bit 8 (drop_bit (8 * k) w)"
  have "take_bit (32 - 8 * k) z = z"
    unfolding z_def using assms by (intro bit_word_eqI) (auto simp add: bit_simps)
  then have "(mulx ^^ (8 * k)) (push_bit (8 * k) z) = z"
    by (simp add: mulx_pow_push)
  then have "(mulx ^^ (8 * (20 - k))) z =
        (mulx ^^ (8 * (20 - k))) ((mulx ^^ (8 * k)) (push_bit (8 * k) z))"
    by simp
  also have "\<dots> = (mulx ^^ 160) (push_bit (8 * k) z)"
    using assms by (simp only: funpow_app_add) (simp add: algebra_simps)
  finally show ?thesis
    by (simp add: crc_braid_table_def N_def W_def and_0xff z_def)
qed

lemma braid_word_eq: "braid_word w = (mulx ^^ 160) w"
proof -
  have l: "[Suc 0..<4] = [Suc 0, 2, 3]" by (simp add: upt_rec)
  have "braid_word w =
      crc_braid_table 0 (drop_bit (8 * 0) w AND 0xff) XOR
      crc_braid_table 1 (drop_bit (8 * 1) w AND 0xff) XOR
      crc_braid_table 2 (drop_bit (8 * 2) w AND 0xff) XOR
      crc_braid_table 3 (drop_bit (8 * 3) w AND 0xff)"
    by (simp add: braid_word_def W_def l push_bit_eq_mult xor.assoc)
  also have "\<dots> = (mulx ^^ 160) (take_bit 8 w XOR push_bit 8 (take_bit 8 (drop_bit 8 w)) XOR
       push_bit 16 (take_bit 8 (drop_bit 16 w)) XOR push_bit 24 (take_bit 8 (drop_bit 24 w)))"
    by (simp only: byte_contrib mulx_pow_xor) simp
  also have "\<dots> = (mulx ^^ 160) w"
    using word_bytes_xor [of w] by simp
  finally show ?thesis .
qed

lemma crc_words_Cons [simp]: "crc_words r (w # ws) = crc_words (crc_word (r XOR w)) ws"
  by (simp add: crc_words_def)

lemma crc_words_Nil [simp]: "crc_words r [] = r"
  by (simp add: crc_words_def)

lemma crc_words_append: "crc_words r (xs @ ys) = crc_words (crc_words r xs) ys"
  by (simp add: crc_words_def)

lemma crc_words_lanes: "crc_words r ws = (mulx ^^ (32 * length ws)) r XOR lanes_val ws"
proof (induction ws arbitrary: r)
  case Nil
  then show ?case by simp
next
  case (Cons w ws)
  show ?case
    by (simp add: Cons.IH crc_word_eq mulx_pow_xor funpow_app_add algebra_simps xor.assoc)
qed

lemma lanes_val_map_mulx: "lanes_val (map (mulx ^^ n) xs) = (mulx ^^ n) (lanes_val xs)"
  by (induction xs) (simp_all add: mulx_pow_xor funpow_app_add add.commute)

lemma lanes_val_map2_xor:
  "length xs = length ys \<Longrightarrow> lanes_val (map2 (XOR) xs ys) = lanes_val xs XOR lanes_val ys"
proof (induction xs ys rule: list_induct2)
  case Nil
  then show ?case by simp
next
  case (Cons x xs y ys)
  then show ?case by (simp add: mulx_pow_xor xor.assoc xor.left_commute)
qed

lemma lanes_val_replicate_0 [simp]: "lanes_val (replicate n 0) = 0"
  by (induction n) simp_all

lemma lane_words:
  assumes "length lanes = n"
  shows "map (\<lambda>k. f (lanes ! k XOR load_word little mem (words + k * W))) [0..<n] =
         map f (map2 (XOR) lanes (words_at little mem words n))"
  using assms by (intro nth_equalityI) (simp_all add: words_at_def)

lemma words_at_add:
  "words_at little mem a (m + n) = words_at little mem a m @ words_at little mem (a + m * W) n"
proof (induction m arbitrary: a)
  case 0
  then show ?case by (simp add: words_at_def)
next
  case (Suc m)
  show ?case
    using Suc.IH [of "a + W"] by (simp add: words_at_Suc add.assoc del: upt_Suc)
qed

lemma braid_loop_little:
  assumes "length lanes = N" and "lanes_val lanes = (mulx ^^ 160) r"
  shows "case braid_loop braid_word True mem b lanes words of (lanes', words') \<Rightarrow>
           length lanes' = N \<and> words' = words + b * N * W \<and>
           lanes_val lanes' = (mulx ^^ 160) (crc_words r (words_at True mem words (b * N)))"
  using assms
proof (induction b arbitrary: lanes words r)
  case 0
  then show ?case by (simp add: words_at_def)
next
  case (Suc b)
  define ws where "ws = words_at True mem words N"
  define lanes1 where "lanes1 = map braid_word (map2 (XOR) lanes ws)"
  have bw: "braid_word = mulx ^^ 160" by (rule ext) (rule braid_word_eq)
  have len1: "length lanes1 = N" using Suc.prems by (simp add: lanes1_def ws_def)
  have "lanes_val lanes1 = (mulx ^^ 160) (lanes_val lanes XOR lanes_val ws)"
    unfolding lanes1_def bw using Suc.prems
    by (simp only: lanes_val_map_mulx) (simp add: lanes_val_map2_xor ws_def)
  also have "lanes_val lanes XOR lanes_val ws = crc_words r ws"
    using Suc.prems by (simp add: crc_words_lanes ws_def N_def)
  finally have val1: "lanes_val lanes1 = (mulx ^^ 160) (crc_words r ws)" .
  have step: "braid_loop braid_word True mem (Suc b) lanes words =
        braid_loop braid_word True mem b lanes1 (words + N * W)"
    using lane_words [OF Suc.prems(1), of braid_word True mem words]
    by (simp add: lanes1_def ws_def)
  have "words_at True mem words (Suc b * N) = ws @ words_at True mem (words + N * W) (b * N)"
    using words_at_add [of True mem words N "b * N"] by (simp add: ws_def)
  then show ?case
    using Suc.IH [OF len1 val1, of "words + N * W"] unfolding step
    by (simp add: crc_words_append algebra_simps split: prod.splits)
qed

lemma braid_last_eq:
  assumes "length lanes = N"
  shows "braid_last cw little mem lanes words =
         fold (\<lambda>x c. cw (x XOR c)) (map2 (XOR) lanes (words_at little mem words N)) 0"
proof -
  have n: "[0..<N] = 0 # [1..<N]" by (simp add: N_def upt_rec)
  have "braid_last cw little mem lanes words =
        fold (\<lambda>k c. cw (lanes ! k XOR load_word little mem (words + k * W) XOR c)) [0..<N] 0"
    unfolding n by (simp add: braid_last_def)
  also have "\<dots> = fold (\<lambda>x c. cw (x XOR c))
        (map (\<lambda>k. lanes ! k XOR load_word little mem (words + k * W)) [0..<N]) 0"
    by (simp add: fold_map comp_def xor.assoc)
  also have "map (\<lambda>k. lanes ! k XOR load_word little mem (words + k * W)) [0..<N] =
        map2 (XOR) lanes (words_at little mem words N)"
    using lane_words [OF assms, of "\<lambda>x. x" little mem words] by simp
  finally show ?thesis .
qed

lemma braid_last_little:
  assumes "length lanes = N" and "lanes_val lanes = (mulx ^^ 160) r"
  shows "braid_last crc_word True mem lanes words = crc_words r (words_at True mem words N)"
proof -
  have "braid_last crc_word True mem lanes words =
        crc_words 0 (map2 (XOR) lanes (words_at True mem words N))"
    by (simp add: braid_last_eq [OF assms(1)] crc_words_def xor.commute)
  also have "\<dots> = lanes_val lanes XOR lanes_val (words_at True mem words N)"
    using assms(1) by (simp add: crc_words_lanes lanes_val_map2_xor)
  also have "\<dots> = crc_words r (words_at True mem words N)"
    using assms by (simp add: crc_words_lanes [of r] N_def)
  finally show ?thesis .
qed

lemma byte_swap_alt:
  "byte_swap w = take_bit 8 (drop_bit 24 w) OR push_bit 8 (take_bit 8 (drop_bit 16 w)) OR
     push_bit 16 (take_bit 8 (drop_bit 8 w)) OR push_bit 24 (take_bit 8 w)"
proof -
  have m: "(0xff000000 :: u32) = push_bit 24 (mask 8)" "(0xff0000 :: u32) = push_bit 16 (mask 8)"
    "(0xff00 :: u32) = push_bit 8 (mask 8)" "(0xff :: u32) = mask 8"
    by (simp_all add: mask_eq_exp_minus_1)
  have 1: "drop_bit 24 (w AND push_bit 24 (mask 8)) = take_bit 8 (drop_bit 24 w)"
    by (intro bit_word_eqI) (auto simp add: bit_simps dest: bit_imp_le_length)
  have 2: "drop_bit 8 (w AND push_bit 16 (mask 8)) = push_bit 8 (take_bit 8 (drop_bit 16 w))"
    by (intro bit_word_eqI) (auto simp add: bit_simps dest: bit_imp_le_length)
  have 3: "push_bit 8 (w AND push_bit 8 (mask 8)) = push_bit 16 (take_bit 8 (drop_bit 8 w))"
    by (intro bit_word_eqI) (auto simp add: bit_simps dest: bit_imp_le_length)
  have 4: "push_bit 24 (w AND mask 8) = push_bit 24 (take_bit 8 w)"
    by (simp add: take_bit_eq_mask)
  show ?thesis
    unfolding byte_swap_def m by (simp only: 1 2 3 4)
qed

lemma bit_byte_swap:
  "bit (byte_swap w) n \<longleftrightarrow> n < 32 \<and> bit w (swap_ix n)"
proof (cases "n < 32")
  case False
  then show ?thesis by (auto dest: bit_imp_le_length)
next
  case True
  then consider "n < 8" | "8 \<le> n" "n < 16" | "16 \<le> n" "n < 24" | "24 \<le> n" "n < 32"
    by linarith
  then show ?thesis
  proof cases
    case 1
    then have "n div 8 = 0" "n mod 8 = n" by simp_all
    then show ?thesis using 1 unfolding byte_swap_alt swap_ix_def
      by (simp add: bit_simps)
  next
    case 2
    then have "n div 8 = 1" "n mod 8 = n - 8" by (simp_all add: div_nat_eqI mod_if)
    then show ?thesis using 2 unfolding byte_swap_alt swap_ix_def
      by (auto simp add: bit_simps)
  next
    case 3
    then have "n div 8 = 2" "n mod 8 = n - 16" by (simp_all add: div_nat_eqI mod_if)
    then show ?thesis using 3 unfolding byte_swap_alt swap_ix_def
      by (auto simp add: bit_simps)
  next
    case 4
    then have "n div 8 = 3" "n mod 8 = n - 24" by (simp_all add: div_nat_eqI mod_if)
    then show ?thesis using 4 unfolding byte_swap_alt swap_ix_def
      by (auto simp add: bit_simps)
  qed
qed


lemma swap_ix_less: "n < 32 \<Longrightarrow> swap_ix n < 32"
  unfolding swap_ix_def by (simp add: less_mult_imp_div_less add.commute trans_less_add2)

lemma swap_ix_swap_ix: "n < 32 \<Longrightarrow> swap_ix (swap_ix n) = n"
proof -
  assume n: "n < 32"
  then have d: "n div 8 \<le> 3" by simp
  have e: "swap_ix n = 8 * (3 - n div 8) + n mod 8"
    unfolding swap_ix_def using d by simp
  have "swap_ix n div 8 = 3 - n div 8" "swap_ix n mod 8 = n mod 8"
    unfolding e by simp_all
  then have "swap_ix (swap_ix n) = 24 - 8 * (3 - n div 8) + n mod 8"
    by (simp add: swap_ix_def [of "swap_ix n"])
  also have "\<dots> = 8 * (n div 8) + n mod 8"
    using d by linarith
  finally show ?thesis by simp
qed

lemma byte_swap_xor: "byte_swap (a XOR b) = byte_swap a XOR byte_swap b"
  by (intro bit_word_eqI) (simp add: bit_byte_swap bit_xor_iff)

lemma byte_swap_0 [simp]: "byte_swap 0 = 0"
  by (intro bit_word_eqI) (simp add: bit_byte_swap)

lemma byte_swap_byte_swap [simp]: "byte_swap (byte_swap w) = w"
  by (intro bit_word_eqI) (simp add: bit_byte_swap swap_ix_less swap_ix_swap_ix)


lemma swap_ix_byte: "n < 8 \<Longrightarrow> k < 4 \<Longrightarrow> swap_ix (n + 8 * k) = 24 - 8 * k + n"
  by (simp add: swap_ix_def)

lemma byte_of_swap:
  assumes "k < 4"
  shows "take_bit 8 (drop_bit (8 * k) (byte_swap w)) = take_bit 8 (drop_bit (8 * (3 - k)) w)"
proof (intro bit_word_eqI)
  fix n assume "n < LENGTH(32)"
  show "bit (take_bit 8 (drop_bit (8 * k) (byte_swap w))) n =
        bit (take_bit 8 (drop_bit (8 * (3 - k)) w)) n"
  proof (cases "n < 8")
    case True
    then have "swap_ix (8 * k + n) = 24 - 8 * k + n"
      using swap_ix_byte [of n k] assms by (simp add: add.commute)
    moreover have "8 * k + n < 32" using True assms by simp
    moreover have "8 * (3 - k) + n = 24 - 8 * k + n" using assms by simp
    ultimately show ?thesis
      using True by (simp add: bit_simps bit_byte_swap)
  next
    case False
    then show ?thesis by (simp add: bit_simps)
  qed
qed

lemma braid_word_big_swap: "braid_word_big (byte_swap w) = byte_swap (braid_word w)"
proof -
  have l: "[Suc 0..<4] = [Suc 0, 2, 3]" by (simp add: upt_rec)
  have b: "drop_bit (8 * k) (byte_swap w) AND 0xff = drop_bit (8 * (3 - k)) w AND 0xff"
    if "k < 4" for k
    unfolding and_0xff using that by (rule byte_of_swap)
  have "braid_word_big (byte_swap w) =
      crc_braid_big_table 0 (drop_bit (8 * 0) (byte_swap w) AND 0xff) XOR
      crc_braid_big_table 1 (drop_bit (8 * 1) (byte_swap w) AND 0xff) XOR
      crc_braid_big_table 2 (drop_bit (8 * 2) (byte_swap w) AND 0xff) XOR
      crc_braid_big_table 3 (drop_bit (8 * 3) (byte_swap w) AND 0xff)"
    by (simp add: braid_word_big_def W_def l push_bit_eq_mult xor.assoc)
  also have "\<dots> =
      byte_swap (crc_braid_table 3 (drop_bit (8 * 3) w AND 0xff)) XOR
      byte_swap (crc_braid_table 2 (drop_bit (8 * 2) w AND 0xff)) XOR
      byte_swap (crc_braid_table 1 (drop_bit (8 * 1) w AND 0xff)) XOR
      byte_swap (crc_braid_table 0 (drop_bit (8 * 0) w AND 0xff))"
    by (simp only: b crc_braid_big_table_def W_def) simp
  also have "\<dots> = byte_swap (braid_word w)"
    by (simp add: braid_word_def W_def l push_bit_eq_mult byte_swap_xor ac_simps)
  finally show ?thesis .
qed

lemma push_byte_swap: "push_bit 8 (byte_swap d) = byte_swap (drop_bit 8 d)"
proof (intro bit_word_eqI)
  fix n assume n: "n < LENGTH(32)"
  show "bit (push_bit 8 (byte_swap d)) n = bit (byte_swap (drop_bit 8 d)) n"
  proof (cases "8 \<le> n")
    case True
    have "(n - 8) div 8 = n div 8 - 1" "(n - 8) mod 8 = n mod 8"
      using True le_div_geq [of 8 n] le_mod_geq [of 8 n] by simp_all
    moreover have "1 \<le> n div 8" "n div 8 \<le> 3" using True n by simp_all
    ultimately have "swap_ix (n - 8) = swap_ix n + 8"
    proof -
      define q where "q = n div 8"
      have "q = 1 \<or> q = 2 \<or> q = 3" using \<open>1 \<le> n div 8\<close> \<open>n div 8 \<le> 3\<close> unfolding q_def by linarith
      then have "24 - 8 * (q - 1) = 24 - 8 * q + 8" by auto
      then show ?thesis
        using \<open>(n - 8) div 8 = n div 8 - 1\<close> \<open>(n - 8) mod 8 = n mod 8\<close>
        unfolding swap_ix_def q_def by simp
    qed
    then show ?thesis using True n
      by (auto simp add: bit_simps bit_byte_swap swap_ix_less add.commute)
  next
    case False
    then have "swap_ix n + 8 = 32 + n" by (simp add: swap_ix_def)
    then have "\<not> bit d (swap_ix n + 8)"
      by (auto dest: bit_imp_le_length)
    then show ?thesis using False
      by (simp add: bit_simps bit_byte_swap add.commute)
  qed
qed

lemma crc_word_big_swap: "crc_word_big (byte_swap d) = byte_swap (crc_word d)"
proof -
  define g where "g = (\<lambda>d :: u32. drop_bit 8 d XOR crc_table (d AND 0xff))"
  define h where "h = (\<lambda>d :: u32. push_bit 8 d XOR crc_big_table (drop_bit 24 d AND 0xff))"
  have s: "h (byte_swap d) = byte_swap (g d)" for d
    using byte_of_swap [of 3 d]
    by (simp add: h_def g_def push_byte_swap byte_swap_xor crc_big_table_def and_0xff)
  have "(h ^^ n) (byte_swap d) = byte_swap ((g ^^ n) d)" for n
    by (induction n) (simp_all add: s)
  then show ?thesis
    by (simp add: crc_word_big_def crc_word_def W_def g_def h_def)
qed

lemma load_word_bytes:
  "take_bit 8 (load_word True mem a) = ucast (mem a)"
  "take_bit 8 (drop_bit 8 (load_word True mem a)) = ucast (mem (a + 1))"
  "take_bit 8 (drop_bit 16 (load_word True mem a)) = ucast (mem (a + 2))"
  "take_bit 8 (drop_bit 24 (load_word True mem a)) = ucast (mem (a + 3))"
  unfolding load_word_def
  by (intro bit_word_eqI; auto simp add: bit_simps dest: bit_imp_le_length)+

lemma load_word_big: "load_word False mem a = byte_swap (load_word True mem a)"
  unfolding byte_swap_alt load_word_bytes
  by (simp add: load_word_def ac_simps)

lemma words_at_big: "words_at False mem a n = map byte_swap (words_at True mem a n)"
  by (simp add: words_at_def load_word_big)

lemma map2_xor_swap:
  "map2 (XOR) (map byte_swap xs) (map byte_swap ys) = map byte_swap (map2 (XOR) xs ys)"
proof (induction xs arbitrary: ys)
  case Nil
  then show ?case by simp
next
  case (Cons x xs)
  then show ?case by (cases ys) (simp_all add: byte_swap_xor)
qed

lemma braid_loop_big:
  assumes "length lanes = N"
  shows "braid_loop braid_word_big False mem b (map byte_swap lanes) words =
         (case braid_loop braid_word True mem b lanes words of
            (lanes', words') \<Rightarrow> (map byte_swap lanes', words'))"
  using assms
proof (induction b arbitrary: lanes words)
  case 0
  then show ?case by simp
next
  case (Suc b)
  define lanes1 where "lanes1 = map braid_word (map2 (XOR) lanes (words_at True mem words N))"
  have len1: "length lanes1 = N" using Suc.prems by (simp add: lanes1_def)
  have s1: "braid_loop braid_word True mem (Suc b) lanes words =
        braid_loop braid_word True mem b lanes1 (words + N * W)"
    using lane_words [OF Suc.prems, of braid_word True mem words]
    by (simp add: lanes1_def)
  have "map braid_word_big (map2 (XOR) (map byte_swap lanes) (words_at False mem words N)) =
        map byte_swap lanes1"
    by (simp add: words_at_big map2_xor_swap lanes1_def braid_word_big_swap)
  then have s2: "braid_loop braid_word_big False mem (Suc b) (map byte_swap lanes) words =
        braid_loop braid_word_big False mem b (map byte_swap lanes1) (words + N * W)"
    using lane_words [of "map byte_swap lanes" N braid_word_big False mem words] Suc.prems
    by simp
  show ?case unfolding s1 s2 by (rule Suc.IH [OF len1])
qed

lemma fold_swap:
  "fold (\<lambda>x c. crc_word_big (x XOR c)) (map byte_swap xs) (byte_swap c) =
   byte_swap (fold (\<lambda>x c. crc_word (x XOR c)) xs c)"
  by (induction xs arbitrary: c) (simp_all add: byte_swap_xor [symmetric] crc_word_big_swap)

lemma braid_last_big:
  assumes "length lanes = N"
  shows "braid_last crc_word_big False mem (map byte_swap lanes) words =
         byte_swap (braid_last crc_word True mem lanes words)"
proof -
  have "length (map byte_swap lanes) = N" using assms by simp
  then show ?thesis
    using fold_swap [of "map2 (XOR) lanes (words_at True mem words N)" 0]
    by (simp add: braid_last_eq assms words_at_big map2_xor_swap)
qed

lemma crc32_braid_eq:
  assumes "N * W + W - 1 \<le> len"
  shows "(case crc32_braid little mem crc buf len of (c, b, l) \<Rightarrow> crc_bytes c (bytes_at mem b l)) =
         crc_bytes crc (bytes_at mem buf len)"
proof -
  obtain c b l where al: "align_loop mem crc buf len = (c, b, l)"
    by (cases "align_loop mem crc buf len")
  from align_loop_eq [of mem crc buf len] al
  have a1: "crc_bytes c (bytes_at mem b l) = crc_bytes crc (bytes_at mem buf len)"
    and a2: "l \<le> len" and a3: "len - l \<le> (W - buf mod W) mod W"
    by simp_all
  have "(W - buf mod W) mod W \<le> W - 1" by (simp add: W_def)
  with a3 assms a2 have l: "N * W \<le> l" unfolding N_def W_def by linarith
  define blks where "blks = l div (N * W)"
  have blks: "1 \<le> blks" unfolding blks_def using l by (simp add: N_def W_def) 
  then have sd: "size_dec blks = blks - 1" by (simp add: size_dec_def)
  define lanes0 where "lanes0 = c # replicate (N - 1) 0"
  have len0: "length lanes0 = N" by (simp add: lanes0_def N_def)
  have val0: "lanes_val lanes0 = (mulx ^^ 160) c" by (simp add: lanes0_def N_def)
  obtain lanes' words' where bl:
    "braid_loop braid_word True mem (blks - 1) lanes0 b = (lanes', words')"
    by (cases "braid_loop braid_word True mem (blks - 1) lanes0 b")
  define r where "r = crc_words c (words_at True mem b ((blks - 1) * N))"
  from braid_loop_little [OF len0 val0, where mem = mem and b = "blks - 1" and words = b] bl
  have b1: "length lanes' = N" and b2: "words' = b + (blks - 1) * N * W"
    and b3: "lanes_val lanes' = (mulx ^^ 160) r"
    by (simp_all add: r_def)
  have last: "braid_last crc_word True mem lanes' words' =
        crc_words c (words_at True mem b (blks * N))"
  proof -
    have "braid_last crc_word True mem lanes' words' = crc_words r (words_at True mem words' N)"
      by (rule braid_last_little [OF b1 b3])
    also have "\<dots> = crc_words c (words_at True mem b ((blks - 1) * N + N))"
      by (simp add: r_def words_at_add crc_words_append b2 mult.assoc)
    also have "(blks - 1) * N + N = blks * N"
      using blks by (simp add: algebra_simps)
    finally show ?thesis .
  qed
  have w': "words' + N * W = b + blks * N * W"
  proof -
    obtain k where "blks = Suc k" using blks by (cases blks) auto
    then show ?thesis by (simp add: b2 algebra_simps)
  qed
  have bytes: "crc_bytes (crc_words c (words_at True mem b (blks * N)))
          (bytes_at mem (b + blks * N * W) (l - blks * N * W)) =
        crc_bytes c (bytes_at mem b l)"
  proof -
    have "blks * N * W \<le> l" unfolding blks_def by (simp add: mult.assoc)
    then have "bytes_at mem b l = bytes_at mem b (blks * N * W) @
        bytes_at mem (b + blks * N * W) (l - blks * N * W)"
      using bytes_at_add [of mem b "blks * N * W" "l - blks * N * W"] by simp
    then show ?thesis
      by (simp add: crc_bytes_append crc_words_bytes)
  qed
  show ?thesis
  proof (cases little)
    case True
    have bl_s: "braid_loop braid_word True mem (blks - Suc 0) (c # replicate (N - Suc 0) 0) b =
        (lanes', words')"
      using bl by (simp add: lanes0_def)
    have "crc32_braid True mem crc buf len =
        (crc_words c (words_at True mem b (blks * N)), b + blks * N * W, l - blks * N * W)"
      by (simp add: crc32_braid_def al Let_def sd blks_def [symmetric] bl_s last w')
    then show ?thesis using True by (simp add: bytes a1)
  next
    case False
    have sw: "byte_swap c # replicate (N - 1) 0 = map byte_swap lanes0"
      by (simp add: lanes0_def)
    have "braid_loop braid_word_big False mem (blks - 1) (map byte_swap lanes0) b =
        (map byte_swap lanes', words')"
      using bl by (simp add: braid_loop_big [OF len0])
    then have bl_s: "braid_loop braid_word_big False mem (blks - Suc 0)
        (byte_swap c # replicate (N - Suc 0) 0) b = (map byte_swap lanes', words')"
      by (simp add: sw [symmetric])
    have "crc32_braid False mem crc buf len =
        (crc_words c (words_at True mem b (blks * N)), b + blks * N * W, l - blks * N * W)"
      by (simp add: crc32_braid_def al Let_def sd blks_def [symmetric] bl_s
          braid_last_big [OF b1] last w')
    then show ?thesis using False by (simp add: bytes a1)
  qed
qed

lemma tail_loops_eq:
  "(case tail8_loop mem c b l of (c2, b2, l2) \<Rightarrow> tail_loop mem c2 b2 l2) =
   crc_bytes c (bytes_at mem b l)"
  using tail8_loop_eq [of mem c b l] by (simp add: tail_loop_eq split: prod.splits)

lemma crc32_z_bytewise:
  assumes "buf \<noteq> Z_NULL"
  shows "crc32_z little mem crc buf len = NOT (crc_bytes (NOT crc) (bytes_at mem buf len))"
proof (cases "N * W + W - 1 \<le> len")
  case True
  obtain c1 b1 l1 where st: "crc32_braid little mem (NOT crc) buf len = (c1, b1, l1)"
    by (cases "crc32_braid little mem (NOT crc) buf len")
  have e1: "crc_bytes c1 (bytes_at mem b1 l1) = crc_bytes (NOT crc) (bytes_at mem buf len)"
    using crc32_braid_eq [OF True, where little = little and mem = mem and crc = "NOT crc"
        and buf = buf] st by simp
  have "crc32_z little mem crc buf len =
      (case tail8_loop mem c1 b1 l1 of (c2, b2, l2) \<Rightarrow> tail_loop mem c2 b2 l2) XOR 0xffffffff"
    using assms True st by (simp add: crc32_z_def Let_def split: prod.splits)
  then show ?thesis
    by (simp only: tail_loops_eq e1 xor_ffffffff)
next
  case False
  have "crc32_z little mem crc buf len =
      (case tail8_loop mem (NOT crc) buf len of (c2, b2, l2) \<Rightarrow> tail_loop mem c2 b2 l2)
        XOR 0xffffffff"
    using assms False by (simp add: crc32_z_def Let_def split: prod.splits)
  then show ?thesis
    by (simp only: tail_loops_eq xor_ffffffff)
qed

section \<open>Checksum engine: results\<close>

text \<open>
  C9: for every initial crc value and every length, \<^verbatim>\<open>crc32_z\<close> and \<^verbatim>\<open>crc32\<close> called
  with \<^verbatim>\<open>buf == Z_NULL\<close> return the seed value 0 of a CRC computation; no byte of
  memory is read (the result is the same for every memory and byte order).
\<close>

theorem crc32_null_returns_seed:
  "crc32_z little mem crc Z_NULL len = 0 \<and> crc32 little mem crc Z_NULL ulen = 0"
  by (simp add: crc32_z_def crc32_def)

text \<open>
  C2: for every initial crc value, every buffer and every length, on a little-endian and
  on a big-endian host, \<^verbatim>\<open>crc32_z\<close> returns the value of the plain byte-at-a-time table
  loop over the buffer; from \<open>N * W + W - 1\<close> bytes on, this value is the one computed
  by the braided path (alignment bytes, braids, last block) followed by the tail bytes.
  The lengths around the threshold (22, 23 and 24 bytes) are instances.
\<close>

theorem crc32_z_braided_equals_bytewise:
  assumes "buf \<noteq> Z_NULL"
  shows "crc32_z little mem crc buf len = crc32_bytewise crc (bytes_at mem buf len) \<and>
    (N * W + W - 1 \<le> len \<longrightarrow>
      (case crc32_braid little mem (NOT crc) buf len of
         (c, b, l) \<Rightarrow> NOT (crc_bytes c (bytes_at mem b l))) =
      crc32_bytewise crc (bytes_at mem buf len))"
  using assms crc32_braid_eq [where little = little and mem = mem and crc = "NOT crc"
      and buf = buf and len = len]
  by (auto simp add: crc32_z_bytewise crc32_bytewise_def xor_ffffffff split: prod.splits)

theorem crc32_z_braided_equals_bytewise_witness:
  "(4097 :: nat) \<noteq> Z_NULL \<and>
   crc32_z True (\<lambda>a. of_nat a) 0 4097 23 = crc32_bytewise 0 (bytes_at (\<lambda>a. of_nat a) 4097 23) \<and>
   crc32_z False (\<lambda>a. of_nat a) 0 4097 22 = crc32_bytewise 0 (bytes_at (\<lambda>a. of_nat a) 4097 22) \<and>
   crc32_z True (\<lambda>a. of_nat a) 7 4098 24 = crc32_bytewise 7 (bytes_at (\<lambda>a. of_nat a) 4098 24)"
  using crc32_z_braided_equals_bytewise [of 4097 True "\<lambda>a. of_nat a" 0 23]
    crc32_z_braided_equals_bytewise [of 4097 False "\<lambda>a. of_nat a" 0 22]
    crc32_z_braided_equals_bytewise [of 4098 True "\<lambda>a. of_nat a" 7 24]
  by (simp add: Z_NULL_def)

text \<open>
  C1: for all byte sequences \<open>a\<close> and \<open>b\<close> (given as the contents of buffers anywhere in
  memory, with lengths that fit \<^verbatim>\<open>uInt\<close>), combining their CRCs equals the CRC of the
  concatenation, and the combination is the multiplication of the first CRC by
  \<open>x^(8 * len_b)\<close> modulo \<open>p(x)\<close>, xor the second CRC.
\<close>

theorem crc32_combine_law:
  assumes "pa \<noteq> Z_NULL" and "pb \<noteq> Z_NULL" and "pab \<noteq> Z_NULL"
    and "bytes_at mab pab (unat la + unat lb) =
         bytes_at ma pa (unat la) @ bytes_at mb pb (unat lb)"
  shows "crc32_combine64 (crc32 little ma 0 pa la) (crc32 little mb 0 pb lb) (ucast lb) =
           Some (crc32_z little mab 0 pab (unat la + unat lb)) \<and>
         crc32_combine64 ca cb (ucast lb) = Some ((mulx ^^ (8 * unat lb)) ca XOR cb)"
proof -
  have nb: "\<not> bit (ucast lb :: u64) 63"
    by (auto simp add: bit_simps dest: bit_imp_le_length)
  have ul: "unat (ucast lb :: u64) = unat lb"
    by (rule bit_eqI) (auto simp add: bit_simps dest: bit_imp_le_length)
  have comb: "crc32_combine64 c1 c2 (ucast lb) = Some ((mulx ^^ (8 * unat lb)) c1 XOR c2)"
    for c1 c2
    using crc32_combine64_correct [OF nb, of c1 c2] by (simp add: ul)
  define F :: u32 where "F = NOT 0"
  define A where "A = crc_bytes F (bytes_at ma pa (unat la))"
  define n where "n = 8 * unat lb"
  have B: "crc_bytes F (bytes_at mb pb (unat lb)) =
      (mulx ^^ n) F XOR crc_bytes 0 (bytes_at mb pb (unat lb))"
    using crc_bytes_linear [of F "bytes_at mb pb (unat lb)"] by (simp add: n_def)
  have AB: "crc_bytes F (bytes_at mab pab (unat la + unat lb)) =
      (mulx ^^ n) A XOR crc_bytes 0 (bytes_at mb pb (unat lb))"
    using crc_bytes_linear [of A "bytes_at mb pb (unat lb)"]
    by (simp add: assms(4) crc_bytes_append A_def n_def)
  have not_xor: "NOT c = c XOR F" for c :: u32
    by (simp add: F_def)
  have "(mulx ^^ n) (NOT A) XOR NOT (crc_bytes F (bytes_at mb pb (unat lb))) =
        NOT (crc_bytes F (bytes_at mab pab (unat la + unat lb)))"
    unfolding B AB not_xor by (simp add: mulx_pow_xor ac_simps)
  then show ?thesis
    using assms(1-3)
    by (simp add: comb crc32_def crc32_z_bytewise A_def F_def n_def)
qed

theorem crc32_combine_law_witness:
  "(16 :: nat) \<noteq> Z_NULL \<and> (19 :: nat) \<noteq> Z_NULL \<and>
   bytes_at (\<lambda>a. of_nat a) 16 (unat (3 :: u32) + unat (30 :: u32)) =
     bytes_at (\<lambda>a. of_nat a) 16 (unat (3 :: u32)) @ bytes_at (\<lambda>a. of_nat a) 19 (unat (30 :: u32)) \<and>
   crc32_combine64 (crc32 True (\<lambda>a. of_nat a) 0 16 3) (crc32 True (\<lambda>a. of_nat a) 0 19 30)
       (ucast (30 :: u32)) =
     Some (crc32_z True (\<lambda>a. of_nat a) 0 16 (unat (3 :: u32) + unat (30 :: u32)))"
proof -
  have h: "bytes_at (\<lambda>a. of_nat a :: u8) 16 (unat (3 :: u32) + unat (30 :: u32)) =
     bytes_at (\<lambda>a. of_nat a) 16 (unat (3 :: u32)) @ bytes_at (\<lambda>a. of_nat a) 19 (unat (30 :: u32))"
    using bytes_at_add [of "\<lambda>a. of_nat a" 16 3 30] by simp
  have z: "(16 :: nat) \<noteq> Z_NULL" "(19 :: nat) \<noteq> Z_NULL" by (simp_all add: Z_NULL_def)
  from crc32_combine_law [OF z(1) z(2) z(1) h, of True 0 0] z h show ?thesis by simp
qed

text \<open>
  C10, amended: \<^verbatim>\<open>multmodp(a, b)\<close> returns for every \<open>a \<noteq> 0\<close> and never returns for
  \<open>a = 0\<close>; \<^verbatim>\<open>x2nmodp(n, k)\<close> returns a nonzero polynomial for every \<open>n \<ge> 0\<close>, so
  \<^verbatim>\<open>crc32_combine64\<close> and \<^verbatim>\<open>crc32_combine\<close> return for every non-negative \<open>len2\<close>;
  \<^verbatim>\<open>crc32_combine_op\<close> called with \<open>op = 0\<close> never returns.
\<close>

theorem combine_termination:
  "(a \<noteq> 0 \<longrightarrow> (\<exists>p. multmodp a b = Some p)) \<and>
   multmodp 0 b = None \<and>
   (\<not> bit n 63 \<longrightarrow> (\<exists>p. x2nmodp n k = Some p \<and> p \<noteq> 0)) \<and>
   (\<not> bit len2 63 \<longrightarrow> (\<exists>c. crc32_combine64 crc1 crc2 len2 = Some c)) \<and>
   (\<not> bit len32 31 \<longrightarrow> (\<exists>c. crc32_combine crc1 crc2 len32 = Some c)) \<and>
   crc32_combine_op crc1 crc2 0 = None"
proof -
  have x: "\<exists>p. x2nmodp n k = Some p \<and> p \<noteq> 0" if "\<not> bit n 63"
    using x2nmodp_correct [OF that, of "unat k"] by simp
  have c: "\<exists>c. crc32_combine crc1 crc2 len32 = Some c" if "\<not> bit len32 31"
  proof -
    have "\<not> bit (scast len32 :: u64) 63"
      using that by (auto simp add: bit_simps dest: bit_imp_le_length)
    then show ?thesis
      by (simp add: crc32_combine_def crc32_combine64_correct)
  qed
  show ?thesis
    using x c
    by (simp add: multmodp_mulp multmodp_zero crc32_combine64_correct crc32_combine_op_def)
qed

theorem combine_termination_witness:
  "(1 :: u32) \<noteq> 0 \<and> (\<exists>p. multmodp 1 5 = Some p) \<and>
   \<not> bit (9 :: u64) 63 \<and> (\<exists>p. x2nmodp 9 3 = Some p \<and> p \<noteq> 0) \<and>
   (\<exists>c. crc32_combine64 1 2 9 = Some c) \<and>
   \<not> bit (9 :: u32) 31 \<and> (\<exists>c. crc32_combine 1 2 9 = Some c)"
proof -
  have h: "(1 :: u32) \<noteq> 0" "\<not> bit (9 :: u64) 63" "\<not> bit (9 :: u32) 31"
    by simp_all
  from combine_termination [of 1 5 9 3 9 1 2 9] h show ?thesis
    by blast
qed

text \<open>
  C10 as stated fails: with the negative length \<open>len2 = -1\<close> the loop of \<^verbatim>\<open>x2nmodp\<close>
  never reaches \<open>n = 0\<close>, so \<^verbatim>\<open>crc32_combine64\<close> and \<^verbatim>\<open>crc32_combine\<close> do not return.
\<close>

theorem combine_negative_length_diverges:
  "crc32_combine64 0 0 (- 1) = None \<and> crc32_combine 0 0 (- 1) = None"
proof -
  have "bit (- 1 :: u64) 63" by simp
  then have 1: "x2nmodp (- 1) 3 = None" by (rule x2nmodp_negative)
  have "scast (- 1 :: u32) = (- 1 :: u64)" by simp
  then show ?thesis
    by (simp add: crc32_combine_def crc32_combine64_def 1)
qed

end
